theory Spec2Isabelle
  imports Main "HOL-Library.Sublist" "HOL-Library.Char_ord"
begin

section \<open>JavaScript strings and regular expressions\<close>

text \<open>
  The launcher (class \<open>AppLauncher\<close>) classifies the text printed by child processes with
  regular expressions. A JavaScript string is modelled as a \<^typ>\<open>string\<close>: a list of code
  units, here the code units below 256. A regular expression literal of the source becomes a
  value of the datatype \<open>regex\<close>, and the matcher below follows the backtracking semantics
  of ECMAScript: it returns every way to match at the start of the text, in the order
  in which the engine tries them, so that the head is the match JavaScript reports.
\<close>

type_synonym caps = "(nat \<times> string) list"
type_synonym mstate = "string \<times> caps"

datatype regex =
    Lit char
  | Cls bool "(char \<times> char) list"
  | Seq regex regex
  | Alt regex regex
  | Rep nat "nat option" regex
  | Grp nat regex
  | Look regex
  | Eol
  | Eps

text \<open>
  \<open>Lit c\<close> is a character of the pattern, \<open>Cls neg rs\<close> a character class, \<open>Seq\<close> and \<open>Alt\<close>
  are concatenation and \<open>|\<close>, \<open>Rep mn mx r\<close> is a greedy quantifier (\<open>*\<close> is \<open>Rep 0 None\<close>,
  \<open>+\<close> is \<open>Rep 1 None\<close>, \<open>?\<close> is \<open>Rep 0 (Some 1)\<close>), \<open>Grp k r\<close> is the capturing group
  number \<open>k\<close>, \<open>Look r\<close> the lookahead \<open>(?=r)\<close>, \<open>Eol\<close> is \<open>$\<close> under the \<open>m\<close> flag, and
  \<open>Eps\<close> matches the empty text. The state of a match is the text that remains and the
  captures made so far. A character class is a list of ranges of code units; the flag of
  \<open>Cls\<close> negates it.
\<close>

definition inRanges :: "(char \<times> char) list \<Rightarrow> char \<Rightarrow> bool" where
  "inRanges rs c = list_ex (\<lambda>lh. fst lh \<le> c \<and> c \<le> snd lh) rs"

text \<open>
  \<open>toUpperCase\<close> and \<open>toLowerCase\<close> of one code unit below 256: the letters \<open>a\<close> to \<open>z\<close>
  and \<open>\u00e0\<close> to \<open>\u00fe\<close> (but \<open>\u00f7\<close>) differ from their capitals by the bit of value 32.
  The \<open>i\<close> flag compares the capitals.
\<close>

definition upperChar :: "char \<Rightarrow> char" where
  "upperChar c =
     (if (CHR ''a'' \<le> c \<and> c \<le> CHR ''z'') \<or> (CHR 0xE0 \<le> c \<and> c \<le> CHR 0xFE \<and> c \<noteq> CHR 0xF7)
      then (case c of Char b0 b1 b2 b3 b4 b5 b6 b7 \<Rightarrow> Char b0 b1 b2 b3 b4 False b6 b7)
      else c)"

definition lowerChar :: "char \<Rightarrow> char" where
  "lowerChar c =
     (if (CHR ''A'' \<le> c \<and> c \<le> CHR ''Z'') \<or> (CHR 0xC0 \<le> c \<and> c \<le> CHR 0xDE \<and> c \<noteq> CHR 0xD7)
      then (case c of Char b0 b1 b2 b3 b4 b5 b6 b7 \<Rightarrow> Char b0 b1 b2 b3 b4 True b6 b7)
      else c)"

definition chEq :: "bool \<Rightarrow> char \<Rightarrow> char \<Rightarrow> bool" where
  "chEq ci a c = (if ci then upperChar a = upperChar c else a = c)"

definition clsMem :: "bool \<Rightarrow> (char \<times> char) list \<Rightarrow> char \<Rightarrow> bool" where
  "clsMem ci rs c =
     (inRanges rs c \<or> (ci \<and> (inRanges rs (upperChar c) \<or> inRanges rs (lowerChar c))))"

definition isLineTerminator :: "char \<Rightarrow> bool" where
  "isLineTerminator c = (c = CHR 0x0A \<or> c = CHR 0x0D)"

definition decr :: "nat option \<Rightarrow> nat option" where
  "decr mx = (case mx of None \<Rightarrow> None | Some k \<Rightarrow> Some (k - 1))"

text \<open>
  A greedy quantifier \<open>r{mn,mx}\<close> (\<open>None\<close> is no upper bound): one more iteration is tried
  before stopping, and an iteration that consumes nothing once the minimum is reached is
  abandoned, as RepeatMatcher does.
\<close>

function rep :: "(mstate \<Rightarrow> mstate list) \<Rightarrow> nat \<Rightarrow> nat option \<Rightarrow> mstate \<Rightarrow> mstate list" where
  "rep f mn mx st =
     (if mx = Some 0 then [st]
      else concat (map (\<lambda>st'.
             if length (fst st') < length (fst st) \<or> (length (fst st') = length (fst st) \<and> 0 < mn)
             then rep f (mn - 1) (decr mx) st' else []) (f st))
           @ (if mn = 0 then [st] else []))"
  by pat_completeness auto
termination
  by (relation "measures [\<lambda>(f, mn, mx, st). length (fst st), \<lambda>(f, mn, mx, st). mn]") auto

declare rep.simps [simp del]

primrec ms :: "regex \<Rightarrow> bool \<Rightarrow> mstate \<Rightarrow> mstate list" where
  "ms (Lit a) ci st =
     (case fst st of [] \<Rightarrow> [] | c # cs \<Rightarrow> if chEq ci a c then [(cs, snd st)] else [])"
| "ms (Cls neg rs) ci st =
     (case fst st of [] \<Rightarrow> [] | c # cs \<Rightarrow> if clsMem ci rs c \<noteq> neg then [(cs, snd st)] else [])"
| "ms (Seq r1 r2) ci st = concat (map (ms r2 ci) (ms r1 ci st))"
| "ms (Alt r1 r2) ci st = ms r1 ci st @ ms r2 ci st"
| "ms (Rep mn mx r) ci st = rep (ms r ci) mn mx st"
| "ms (Grp k r) ci st =
     map (\<lambda>st'. (fst st', (k, take (length (fst st) - length (fst st')) (fst st)) # snd st'))
       (ms r ci st)"
| "ms (Look r) ci st = (if ms r ci st = [] then [] else [st])"
| "ms Eol ci st = (case fst st of [] \<Rightarrow> [st] | c # cs \<Rightarrow> if isLineTerminator c then [st] else [])"
| "ms Eps ci st = [st]"

record rmatch =
  before :: string
  matched :: string
  after :: string
  groups :: caps

text \<open>\<open>RegExp.prototype.exec\<close> from the start of the text: the leftmost position that matches.\<close>

fun execFrom :: "bool \<Rightarrow> regex \<Rightarrow> string \<Rightarrow> string \<Rightarrow> rmatch option" where
  "execFrom ci r pre [] =
     (case ms r ci ([], []) of
        [] \<Rightarrow> None
      | st # _ \<Rightarrow> Some \<lparr>before = pre, matched = [], after = [], groups = snd st\<rparr>)"
| "execFrom ci r pre (c # cs) =
     (case ms r ci (c # cs, []) of
        [] \<Rightarrow> execFrom ci r (pre @ [c]) cs
      | st # _ \<Rightarrow> Some \<lparr>before = pre,
                       matched = take (length (c # cs) - length (fst st)) (c # cs),
                       after = fst st, groups = snd st\<rparr>)"

definition exec :: "bool \<Rightarrow> regex \<Rightarrow> string \<Rightarrow> rmatch option" where
  "exec ci r s = execFrom ci r [] s"

definition test :: "bool \<Rightarrow> regex \<Rightarrow> string \<Rightarrow> bool" where
  "test ci r s = (exec ci r s \<noteq> None)"

definition group :: "rmatch \<Rightarrow> nat \<Rightarrow> string option" where
  "group m k = map_of (groups m) k"

text \<open>
  \<open>s.replace(r, "")\<close> for a regular expression with the \<open>g\<close> flag: every match, found from
  left to right in one pass, is removed; a position without a match keeps its character.
\<close>

function removeMatches :: "bool \<Rightarrow> regex \<Rightarrow> string \<Rightarrow> string" where
  "removeMatches ci r [] = []"
| "removeMatches ci r (c # cs) =
     (case ms r ci (c # cs, []) of
        [] \<Rightarrow> c # removeMatches ci r cs
      | st # _ \<Rightarrow> if length (fst st) < length (c # cs) then removeMatches ci r (fst st)
                  else c # removeMatches ci r cs)"
  by pat_completeness auto
termination
  by (relation "measure (\<lambda>(ci, r, s). length s)") auto

declare removeMatches.simps(2) [simp del]

definition chars :: "string \<Rightarrow> (char \<times> char) list" where
  "chars s = map (\<lambda>c. (c, c)) s"

definition rng :: "char \<Rightarrow> char \<Rightarrow> char \<times> char" where
  "rng a b = (a, b)"

definition lits :: "string \<Rightarrow> regex" where
  "lits s = foldr (\<lambda>c r. Seq (Lit c) r) s Eps"

definition digit :: regex where
  "digit = Cls False [rng CHR ''0'' CHR ''9'']"


section \<open>JavaScript string operations\<close>

text \<open>
  The character classes \<open>.\<close>, \<open>\s\<close>, \<open>\w\<close> and \<open>\W\<close> of ECMAScript, on the code units
  below 256: white space is \<open>\t\<close>, \<open>\n\<close>, \<open>\v\<close>, \<open>\f\<close>, \<open>\r\<close>, the space and \<open>\u00a0\<close>,
  and \<open>.\<close> is every unit but \<open>\n\<close> and \<open>\r\<close>.
\<close>

definition wsRanges :: "(char \<times> char) list" where
  "wsRanges = [rng (CHR 0x09) (CHR 0x0D), rng CHR '' '' CHR '' '', rng (CHR 0xA0) (CHR 0xA0)]"

definition wordRanges :: "(char \<times> char) list" where
  "wordRanges = [rng CHR ''0'' CHR ''9'', rng CHR ''A'' CHR ''Z'', rng CHR ''_'' CHR ''_'',
                 rng CHR ''a'' CHR ''z'']"

definition dot :: regex where
  "dot = Cls True (chars [CHR 0x0A, CHR 0x0D])"

definition ws :: regex where
  "ws = Cls False wsRanges"

definition word :: regex where
  "word = Cls False wordRanges"

definition nonword :: regex where
  "nonword = Cls True wordRanges"

definition toLowerCase :: "string \<Rightarrow> string" where
  "toLowerCase s = map lowerChar s"

text \<open>\<open>s.split(sep)\<close> for a string separator.\<close>

function splitOn :: "string \<Rightarrow> string \<Rightarrow> string \<Rightarrow> string list" where
  "splitOn sep acc [] = [acc]"
| "splitOn sep acc (c # cs) =
     (if sep \<noteq> [] \<and> prefix sep (c # cs)
      then acc # splitOn sep [] (drop (length sep) (c # cs))
      else splitOn sep (acc @ [c]) cs)"
  by pat_completeness auto
termination
  by (relation "measure (\<lambda>(sep, acc, s). length s)") auto

definition split :: "string \<Rightarrow> string \<Rightarrow> string list" where
  "split sep s = (if sep = [] then map (\<lambda>c. [c]) s else splitOn sep [] s)"

text \<open>
  \<open>s.split(r)\<close> for a regular expression without groups: a match that is empty and starts
  the current field is skipped, every other match ends the field.
\<close>

function splitAt :: "bool \<Rightarrow> regex \<Rightarrow> string \<Rightarrow> string \<Rightarrow> string list" where
  "splitAt ci r acc [] = [acc]"
| "splitAt ci r acc (c # cs) =
     (case ms r ci (c # cs, []) of
        [] \<Rightarrow> splitAt ci r (acc @ [c]) cs
      | st # _ \<Rightarrow>
          if length (fst st) < length (c # cs) then acc # splitAt ci r [] (fst st)
          else if acc \<noteq> [] then acc # splitAt ci r [c] cs
          else splitAt ci r (acc @ [c]) cs)"
  by pat_completeness auto
termination
  by (relation "measure (\<lambda>(ci, r, acc, s). length s)") auto

definition splitRe :: "bool \<Rightarrow> regex \<Rightarrow> string \<Rightarrow> string list" where
  "splitRe ci r s =
     (if s = [] then (if ms r ci ([], []) = [] then [[]] else []) else splitAt ci r [] s)"

definition isWhite :: "char \<Rightarrow> bool" where
  "isWhite c = inRanges wsRanges c"

definition trim :: "string \<Rightarrow> string" where
  "trim s = rev (dropWhile isWhite (rev (dropWhile isWhite s)))"

text \<open>An array element that is \<open>undefined\<close> is \<open>None\<close>; \<open>join\<close> prints it as the empty string.\<close>

fun join :: "string \<Rightarrow> string option list \<Rightarrow> string" where
  "join sep [] = []"
| "join sep [x] = (case x of None \<Rightarrow> [] | Some v \<Rightarrow> v)"
| "join sep (x # y # ys) = (case x of None \<Rightarrow> [] | Some v \<Rightarrow> v) @ sep @ join sep (y # ys)"

text \<open>
  The \<open>while (match) { ...; match = re.exec(s); }\<close> loop over a regular expression with the
  \<open>g\<close> flag: each search starts where the last match ended. A match that does not advance
  is found again for ever, and the loop does not return (\<open>None\<close>).
\<close>

function execAll :: "bool \<Rightarrow> regex \<Rightarrow> string \<Rightarrow> rmatch list option" where
  "execAll ci r s =
     (case exec ci r s of
        None \<Rightarrow> Some []
      | Some m \<Rightarrow>
          if length (after m) < length s then map_option ((#) m) (execAll ci r (after m))
          else None)"
  by pat_completeness auto
termination
  by (relation "measure (\<lambda>(ci, r, s). length s)") auto

declare execAll.simps [simp del]

text \<open>
  \<open>xs.indexOf(x)\<close>, which is \<open>-1\<close> when \<open>x\<close> is not an element, and \<open>xs[i]\<close>, which is
  \<open>undefined\<close> (\<open>None\<close>) when \<open>i\<close> is not an index of the array.
\<close>

fun indexFrom :: "int \<Rightarrow> 'a list \<Rightarrow> 'a \<Rightarrow> int" where
  "indexFrom i [] x = -1"
| "indexFrom i (y # ys) x = (if y = x then i else indexFrom (i + 1) ys x)"

definition indexOf :: "'a list \<Rightarrow> 'a \<Rightarrow> int" where
  "indexOf xs x = indexFrom 0 xs x"

definition at :: "'a list \<Rightarrow> int \<Rightarrow> 'a option" where
  "at xs i = (if 0 \<le> i \<and> nat i < length xs then Some (xs ! nat i) else None)"

text \<open>\<open>s.replace(r, "")\<close> without the \<open>g\<close> flag: the first match is removed.\<close>

definition removeFirst :: "bool \<Rightarrow> regex \<Rightarrow> string \<Rightarrow> string" where
  "removeFirst ci r s = (case exec ci r s of None \<Rightarrow> s | Some m \<Rightarrow> before m @ after m)"

datatype js_error = TypeError | SyntaxError | Error string

datatype 'a deferred = Pending | Resolved 'a | Rejected js_error

text \<open>A settled promise ignores every later \<open>resolve\<close> and \<open>reject\<close>.\<close>

definition resolve :: "'a \<Rightarrow> 'a deferred \<Rightarrow> 'a deferred" where
  "resolve v d = (case d of Pending \<Rightarrow> Resolved v | _ \<Rightarrow> d)"

definition reject :: "js_error \<Rightarrow> 'a deferred \<Rightarrow> 'a deferred" where
  "reject e d = (case d of Pending \<Rightarrow> Rejected e | _ \<Rightarrow> d)"


section \<open>Launch and attach requests\<close>

text \<open>
  The fields of \<open>ICordovaLaunchRequestArgs\<close> and \<open>ICordovaAttachRequestArgs\<close> that the
  modelled functions read or write. A property that may be \<open>undefined\<close> is an option;
  \<open>port\<close> is a number, and \<open>0\<close> is falsy like \<open>undefined\<close>.
\<close>

record requestArgs =
  platform :: "string option"
  target :: "string option"
  port :: "nat option"
  cwd :: "string option"
  attachTimeout :: "nat option"
  timeout :: "nat option"
  runArguments :: "string list option"
  ionicLiveReload :: bool

text \<open>What \<open>launchAndroid\<close> does with the command line it has built.\<close>

datatype launch_action =
    StartIonicDevServer "string list"
  | CordovaRunCommand "string list"

definition NO_LIVERELOAD_WARNING :: string where
  "NO_LIVERELOAD_WARNING = ''Warning: Ionic live reload is currently only supported for Ionic 1 projects. Continuing deployment without Ionic live reload...''"

text \<open>\<open>xs && xs.length > 0\<close> for an array that may be \<open>undefined\<close>.\<close>

definition nonEmpty :: "string list option \<Rightarrow> bool" where
  "nonEmpty xs = (case xs of None \<Rightarrow> False | Some ys \<Rightarrow> ys \<noteq> [])"

text \<open>
  \<open>launchAndroid(launchArgs, projectType, runArguments)\<close>, up to the choice between the
  live-reload server and the plain \<open>cordova run\<close>. The result is the lines logged and the
  action. \<open>isIonicAngular\<close> is the value of
  \<open>CordovaProjectHelper.isIonicAngularProjectByProjectType(projectType)\<close>.
\<close>

definition launchAndroid ::
  "requestArgs \<Rightarrow> bool \<Rightarrow> string list option \<Rightarrow> js_error + (string list \<times> launch_action)" where
  "launchAndroid launchArgs isIonicAngular runArgs =
     (case target launchArgs of
        None \<Rightarrow> Inl TypeError
      | Some tgt \<Rightarrow>
          let isDevice = (toLowerCase tgt = ''device'');
              args0 = [''run'', ''android''];
              (logged, args) =
                (case (if nonEmpty (runArguments launchArgs) then runArguments launchArgs
                       else if nonEmpty runArgs then runArgs else None) of
                   Some given \<Rightarrow> ([], args0 @ given)
                 | None \<Rightarrow>
                     let args1 = args0 @ [if isDevice then ''--device'' else ''--emulator'', ''--verbose''];
                         args2 = (if toLowerCase tgt \<notin> set [''device'', ''emulator'']
                                  then args1 @ [''--target='' @ tgt] else args1)
                     in if ionicLiveReload launchArgs
                        then (if isIonicAngular then ([], args2 @ [''--livereload''])
                              else ([NO_LIVERELOAD_WARNING], args2))
                        else ([], args2))
          in if ''--livereload'' \<in> set args
             then Inr (logged, StartIonicDevServer args)
             else Inr (logged, CordovaRunCommand args))"


section \<open>startIonicDevServer: the readiness detector\<close>

text \<open>
  The state that the handlers of \<open>startIonicDevServer\<close> close over: the accumulated output
  of the two streams, the flags \<open>serverReady\<close> and \<open>appReady\<close>, and the two deferreds.
  \<open>calls\<close> records, in order, each \<open>resolve\<close> and \<open>reject\<close> the handlers call and each
  exception that leaves a handler. The timeouts of the two promises and the \<open>exit\<close> and
  \<open>error\<close> events of the process are not part of the model.
\<close>

datatype call =
    ServerResolve
  | ServerReject js_error
  | AppResolve "string option list"
  | AppReject js_error
  | Uncaught js_error

record server_session =
  serverOut :: string
  serverErr :: string
  serverReady :: bool
  appReady :: bool
  serverDeferred :: "unit deferred"
  appDeferred :: "string option list deferred"
  calls :: "call list"

definition newSession :: server_session where
  "newSession = \<lparr>serverOut = [], serverErr = [], serverReady = False, appReady = False,
                  serverDeferred = Pending, appDeferred = Pending, calls = []\<rparr>"

text \<open>
  What the handlers read from their environment: the command line \<open>cliArgs\<close>, the value of
  \<open>CordovaProjectHelper.isIonicCliVersionGte(launchArgs.cwd, "4.0.0")\<close>, and \<open>os.EOL\<close>.
\<close>

record dev_config =
  cliArgs :: "string list"
  isIonic4 :: bool
  EOL :: string

definition isServe :: "dev_config \<Rightarrow> bool" where
  "isServe cfg = (case cliArgs cfg of [] \<Rightarrow> False | a # _ \<Rightarrow> a = ''serve'')"

text \<open>\<^verbatim>\<open>let errorRegex: RegExp = /error:.*/i;\<close>\<close>

definition errorRegex :: regex where
  "errorRegex = Seq (lits ''error:'') (Rep 0 None dot)"

text \<open>\<^verbatim>\<open>/utils-network error while checking/\<close>\<close>

definition skipErrorRegex :: regex where
  "skipErrorRegex = lits ''utils-network error while checking''"

definition getServerErrorMessage :: "dev_config \<Rightarrow> string \<Rightarrow> string option" where
  "getServerErrorMessage cfg channel =
     (if isIonic4 cfg \<and> test False skipErrorRegex channel then None
      else case exec True errorRegex channel of
             Some errorMatch \<Rightarrow>
               Some (''Error in the Ionic live reload server:'' @ EOL cfg @ matched errorMatch)
           | None \<Rightarrow> None)"

text \<open>
  \<^verbatim>\<open>/created bundle at path|\(lldb\)\W+run\r?\nsuccess/i\<close>,
  \<^verbatim>\<open>/build succeeded/i\<close> and \<^verbatim>\<open>/launch success|run successful/i\<close>
\<close>

definition iosDeviceAppReadyRegex :: regex where
  "iosDeviceAppReadyRegex =
     Alt (lits ''created bundle at path'')
         (Seq (lits ''(lldb)'') (Seq (Rep 1 None nonword) (Seq (lits ''run'')
            (Seq (Rep 0 (Some 1) (Lit (CHR 0x0D))) (Seq (Lit (CHR 0x0A)) (lits ''success''))))))"

definition iosSimulatorAppReadyRegex :: regex where
  "iosSimulatorAppReadyRegex = lits ''build succeeded''"

definition appReadyRegex :: regex where
  "appReadyRegex = Alt (lits ''launch success'') (lits ''run successful'')"

definition getRegexToResolveAppDefer :: "string list \<Rightarrow> regex" where
  "getRegexToResolveAppDefer args =
     (let isIosDevice = (''ios'' \<in> set args \<and> ''--device'' \<in> set args);
          isIosSimulator = (''ios'' \<in> set args \<and> ''emulate'' \<in> set args)
      in if isIosDevice then iosDeviceAppReadyRegex
         else if isIosSimulator then iosSimulatorAppReadyRegex
         else appReadyRegex)"

text \<open>
  \<^verbatim>\<open>const SERVER_URL_RE = /(dev server running|Running dev server|Local):.*(http:\/\/.[^\s]*)/gmi;\<close>
  The literal is evaluated at each call of the handler, so every search starts at index 0.
\<close>

definition SERVER_URL_RE :: regex where
  "SERVER_URL_RE =
     Seq (Grp 1 (Alt (lits ''dev server running'') (Alt (lits ''Running dev server'') (lits ''Local''))))
    (Seq (Lit CHR '':'')
    (Seq (Rep 0 None dot)
         (Grp 2 (Seq (lits ''http://'') (Seq dot (Rep 0 None (Cls True wsRanges)))))))"

text \<open>\<^verbatim>\<open>/External:\s(.*)$/im\<close>\<close>

definition externalRegex :: regex where
  "externalRegex = Seq (lits ''External:'') (Seq ws (Seq (Grp 1 (Rep 0 None dot)) Eol))"

text \<open>\<^verbatim>\<open>/Multiple network interfaces detected/\<close> and \<^verbatim>\<open>let addressRegex = /(\d+\) .*)/gm;\<close>\<close>

definition multipleRegex :: regex where
  "multipleRegex = lits ''Multiple network interfaces detected''"

definition addressRegex :: regex where
  "addressRegex =
     Grp 1 (Seq (Rep 1 None digit) (Seq (Lit CHR '')'') (Seq (Lit CHR '' '') (Rep 0 None dot))))"

definition multipleInterfacesMessage :: string where
  "multipleInterfacesMessage =
     ''Your machine has multiple network addresses. Please specify which one your device or emulator will use to communicate with the dev server by adding a ''
     @ [CHR 0x22] @ ''devServerAddress'' @ [CHR 0x22] @ '': '' @ [CHR 0x22] @ ''ADDRESS'' @ [CHR 0x22]
     @ '' property to .vscode/launch.json.'' @ [CHR 0x0A]
     @ ''To get the list of addresses run '' @ [CHR 0x22]
     @ ''ionic cordova run PLATFORM --livereload'' @ [CHR 0x22]
     @ '' (where PLATFORM is platform name to run) and wait until prompt with this list is appeared.''"

text \<open>The addresses pushed by the \<open>while (match)\<close> loop: \<open>match[1]\<close> of every match.\<close>

definition networkAddresses :: "string \<Rightarrow> string option list option" where
  "networkAddresses out = map_option (map (\<lambda>m. group m 1)) (execAll False addressRegex out)"

definition networkErrorMessage :: "string \<Rightarrow> string option list \<Rightarrow> string" where
  "networkErrorMessage eol addresses =
     (if addresses \<noteq> []
      then multipleInterfacesMessage @ join (eol @ '' '') (Some '' Available addresses:'' # addresses)
      else multipleInterfacesMessage)"

text \<open>
  The three parts of \<open>serverOutputHandler\<close> that follow the search for the server URL.
  \<open>appStep\<close> returns \<open>Inl\<close> when reading \<open>localServerMatchResult[2]\<close> or
  \<open>externalUrls[1].split\<close> throws: the exception leaves the handler, and what follows in
  the handler does not run.
\<close>

definition appStep :: "dev_config \<Rightarrow> rmatch option \<Rightarrow> server_session \<Rightarrow> server_session + server_session" where
  "appStep cfg localServerMatchResult s =
     (if serverReady s \<and> \<not> appReady s
      then if isServe cfg \<or> test True (getRegexToResolveAppDefer (cliArgs cfg)) (serverOut s)
           then (case localServerMatchResult of
                   None \<Rightarrow> Inl (s\<lparr>appReady := True, calls := calls s @ [Uncaught TypeError]\<rparr>)
                 | Some m \<Rightarrow>
                     (case exec True externalRegex (serverOut s) of
                        None \<Rightarrow>
                          Inr (s\<lparr>appReady := True,
                                 appDeferred := resolve [group m 2] (appDeferred s),
                                 calls := calls s @ [AppResolve [group m 2]]\<rparr>)
                      | Some externalUrls \<Rightarrow>
                          (case group externalUrls 1 of
                             None \<Rightarrow> Inl (s\<lparr>appReady := True, calls := calls s @ [Uncaught TypeError]\<rparr>)
                           | Some listed \<Rightarrow>
                               let serverUrls = group m 2 # map (\<lambda>x. Some (trim x)) (split '', '' listed)
                               in Inr (s\<lparr>appReady := True,
                                        appDeferred := resolve serverUrls (appDeferred s),
                                        calls := calls s @ [AppResolve serverUrls]\<rparr>))))
           else Inr s
      else Inr s)"

definition multipleStep :: "dev_config \<Rightarrow> server_session \<Rightarrow> server_session option" where
  "multipleStep cfg s =
     (if test False multipleRegex (serverOut s)
      then (case networkAddresses (serverOut s) of
              None \<Rightarrow> None
            | Some addresses \<Rightarrow>
                let e = Error (networkErrorMessage (EOL cfg) addresses)
                in Some (s\<lparr>serverDeferred := reject e (serverDeferred s),
                           calls := calls s @ [ServerReject e]\<rparr>))
      else Some s)"

definition errorStep :: "dev_config \<Rightarrow> server_session \<Rightarrow> server_session" where
  "errorStep cfg s =
     (case getServerErrorMessage cfg (serverOut s) of
        Some errorMsg \<Rightarrow> s\<lparr>appDeferred := reject (Error errorMsg) (appDeferred s),
                            calls := calls s @ [AppReject (Error errorMsg)]\<rparr>
      | None \<Rightarrow> s)"

text \<open>
  \<open>serverOutputHandler(data)\<close>. The result is \<open>None\<close> when the handler does not return,
  \<open>Some (Inl s)\<close> when an exception leaves it in state \<open>s\<close>, and \<open>Some (Inr s)\<close> when it
  returns in state \<open>s\<close>.
\<close>

definition serverOutputHandler ::
  "dev_config \<Rightarrow> server_session \<Rightarrow> string \<Rightarrow> (server_session + server_session) option" where
  "serverOutputHandler cfg s0 data =
     (let s1 = s0\<lparr>serverOut := serverOut s0 @ data\<rparr>;
          localServerMatchResult = exec True SERVER_URL_RE (serverOut s1);
          s2 = (if \<not> serverReady s1 \<and> localServerMatchResult \<noteq> None
                then s1\<lparr>serverReady := True,
                        serverDeferred := resolve () (serverDeferred s1),
                        calls := calls s1 @ [ServerResolve]\<rparr>
                else s1)
      in case appStep cfg localServerMatchResult s2 of
           Inl s3 \<Rightarrow> Some (Inl s3)
         | Inr s3 \<Rightarrow> map_option (\<lambda>s4. Inr (errorStep cfg s4)) (multipleStep cfg s3))"

text \<open>\<open>serverErrorOutputHandler(data)\<close>\<close>

definition serverErrorOutputHandler :: "dev_config \<Rightarrow> server_session \<Rightarrow> string \<Rightarrow> server_session" where
  "serverErrorOutputHandler cfg s0 data =
     (let s1 = s0\<lparr>serverErr := serverErr s0 @ data\<rparr>
      in case getServerErrorMessage cfg (serverErr s1) of
           Some errorMsg \<Rightarrow> s1\<lparr>appDeferred := reject (Error errorMsg) (appDeferred s1),
                                calls := calls s1 @ [AppReject (Error errorMsg)]\<rparr>
         | None \<Rightarrow> s1)"

text \<open>
  The \<open>data\<close> listeners of the two streams. With Ionic 4 a chunk of stderr goes through
  \<open>serverOutputHandler\<close> first, and an exception there leaves the listener before
  \<open>serverErrorOutputHandler\<close> runs. The process goes on after an exception in a listener.
\<close>

datatype chunk = Stdout string | Stderr string

definition onData :: "dev_config \<Rightarrow> server_session \<Rightarrow> chunk \<Rightarrow> server_session option" where
  "onData cfg s ch =
     (case ch of
        Stdout data \<Rightarrow>
          (case serverOutputHandler cfg s data of
             None \<Rightarrow> None
           | Some (Inl s') \<Rightarrow> Some s'
           | Some (Inr s') \<Rightarrow> Some s')
      | Stderr data \<Rightarrow>
          if isIonic4 cfg
          then (case serverOutputHandler cfg s data of
                  None \<Rightarrow> None
                | Some (Inl s') \<Rightarrow> Some s'
                | Some (Inr s') \<Rightarrow> Some (serverErrorOutputHandler cfg s' data))
          else Some (serverErrorOutputHandler cfg s data))"

text \<open>The listeners run on the chunks in the order of their arrival.\<close>

fun feed :: "dev_config \<Rightarrow> server_session \<Rightarrow> chunk list \<Rightarrow> server_session option" where
  "feed cfg s [] = Some s"
| "feed cfg s (ch # chs) = (case onData cfg s ch of None \<Rightarrow> None | Some s' \<Rightarrow> feed cfg s' chs)"

text \<open>
  The URLs that resolve \<open>appDeferred\<close> are stripped of ANSI escape sequences before they
  are stored in \<open>ionicDevServerUrls\<close>.
\<close>

text \<open>
  \<^verbatim>\<open>const ansiRegex = /[\u001b\u009b][[()#;?]*(?:[0-9]{1,4}(?:;[0-9]{0,4})*)?[0-9A-ORZcf-nqry=><]/g;\<close>
\<close>

definition ansiRegex :: regex where
  "ansiRegex =
     Seq (Cls False (chars [CHR 0x1B, CHR 0x9B]))
    (Seq (Rep 0 None (Cls False (chars ''[()#;?'')))
    (Seq (Rep 0 (Some 1)
            (Seq (Rep 1 (Some 4) digit)
                 (Rep 0 None (Seq (Lit CHR '';'') (Rep 0 (Some 4) digit)))))
         (Cls False ([rng CHR ''0'' CHR ''9'', rng CHR ''A'' CHR ''O''] @ chars ''RZc''
                     @ [rng CHR ''f'' CHR ''n''] @ chars ''qry=><''))))"

text \<open>\<^verbatim>\<open>url.replace(ansiRegex, "")\<close>, applied to each URL of \<open>ionicDevServerUrls\<close>.\<close>

definition stripAnsi :: "string \<Rightarrow> string" where
  "stripAnsi url = removeMatches False ansiRegex url"


section \<open>attachAndroid: the target device and the debug socket\<close>

text \<open>
  \<^verbatim>\<open>const deviceFilter = (line: string) => /\w+\tdevice/.test(line) && !/emulator/.test(line);\<close>
  \<^verbatim>\<open>const emulatorFilter = (line: string) => /device/.test(line) && /emulator/.test(line);\<close>
\<close>

definition deviceFilter :: "string \<Rightarrow> bool" where
  "deviceFilter line =
     (test False (Seq (Rep 1 None word) (Seq (Lit (CHR 0x09)) (lits ''device''))) line \<and>
      \<not> test False (lits ''emulator'') line)"

definition emulatorFilter :: "string \<Rightarrow> bool" where
  "emulatorFilter line = (test False (lits ''device'') line \<and> test False (lits ''emulator'') line)"

text \<open>
  The filter chosen by the target. For a target other than \<open>device\<close> and \<open>emulator\<close> it is
  \<open>(line) => line.match(attachArgs.target)\<close>, which reads the target as a regular
  expression: \<open>targetRe\<close> is that expression as a predicate on lines, and \<open>None\<close> when the
  target is not a valid pattern (the filter then throws \<open>SyntaxError\<close> at the first line).
\<close>

definition targetFilter :: "string \<Rightarrow> (string \<Rightarrow> bool) option \<Rightarrow> (string \<Rightarrow> bool) option" where
  "targetFilter tgt targetRe =
     (if toLowerCase tgt = ''device'' then Some deviceFilter
      else if toLowerCase tgt = ''emulator'' then Some emulatorFilter
      else targetRe)"

text \<open>\<^verbatim>\<open>line => line.replace(/\tdevice/, "").replace("\r", "")\<close>\<close>

definition cleanLine :: "string \<Rightarrow> string" where
  "cleanLine line =
     removeFirst False (Lit (CHR 0x0D))
       (removeFirst False (Seq (Lit (CHR 0x09)) (lits ''device'')) line)"

text \<open>
  The first step of \<open>attachAndroid\<close>: from the outcome of \<open>adb devices\<close> to the serial of the
  target. A failed command is \<open>Inl (code, err)\<close>.
\<close>

definition adbDevicesResult ::
  "string \<Rightarrow> (string \<Rightarrow> bool) option \<Rightarrow> (string option \<times> js_error) + string \<Rightarrow> js_error + string" where
  "adbDevicesResult tgt targetRe outcome =
     (case outcome of
        Inl (errorCode, err) \<Rightarrow>
          if errorCode = Some ''ENOENT''
          then Inl (Error ''Unable to find adb. Please ensure it is in your PATH and re-open Visual Studio Code'')
          else Inl err
      | Inr devicesOutput \<Rightarrow>
          (case targetFilter tgt targetRe of
             None \<Rightarrow> Inl SyntaxError
           | Some accepts \<Rightarrow>
               (case map cleanLine (filter accepts (split [CHR 0x0A] devicesOutput)) of
                  [] \<Rightarrow> Inl (Error (''Unable to find target '' @ tgt))
                | result # _ \<Rightarrow>
                    if result = [] then Inl (Error (''Unable to find target '' @ tgt))
                    else Inr result)))"

text \<open>
  The scan of \<open>cat /proc/net/unix\<close> in \<open>findAbstractNameFunction\<close>. A line is cut into
  fields by \<^verbatim>\<open>line.split(/[\s\r]+/)\<close>. \<open>pid\<close> is the process id found before, \<open>None\<close> when the
  lookup returned \<open>undefined\<close>, which the template string prints as \<open>undefined\<close>.
\<close>

definition fieldsOf :: "string \<Rightarrow> string list" where
  "fieldsOf line = splitRe False (Rep 1 None (Cls False (wsRanges @ chars [CHR 0x0D]))) line"

datatype row_result = Continue | Return string | Throw js_error

definition templ :: "string option \<Rightarrow> string" where
  "templ v = (case v of None \<Rightarrow> ''undefined'' | Some s \<Rightarrow> s)"

text \<open>The body of the \<open>for (const line of lines)\<close> loop.\<close>

definition checkSocketRow :: "int \<Rightarrow> int \<Rightarrow> int \<Rightarrow> string option \<Rightarrow> string \<Rightarrow> string \<Rightarrow> row_result" where
  "checkSocketRow flagsIdx stIdx pathIdx pid appPackageName line =
     (let fields = fieldsOf line in
      if length fields < 8 then Continue
      else if at fields flagsIdx \<noteq> Some ''00010000'' \<or> at fields stIdx \<noteq> Some ''01'' then Continue
      else case at fields pathIdx of
             None \<Rightarrow> Throw TypeError
           | Some pathField \<Rightarrow>
               if length pathField < 1 \<or> take 1 pathField \<noteq> ''@'' then Continue
               else if \<not> sublist ''_devtools_remote'' pathField then Continue
               else if pathField = ''@webview_devtools_remote_'' @ templ pid
               then Return (drop 1 pathField)
               else if pathField = ''@'' @ appPackageName @ ''_devtools_remote''
               then Return (drop 1 pathField)
               else Continue)"

text \<open>The loop: \<open>Inr None\<close> when it ends without a \<open>return\<close>, and the function returns \<open>undefined\<close>.\<close>

fun scanSockets :: "int \<Rightarrow> int \<Rightarrow> int \<Rightarrow> string option \<Rightarrow> string \<Rightarrow> string list \<Rightarrow> js_error + string option" where
  "scanSockets flagsIdx stIdx pathIdx pid appPackageName [] = Inr None"
| "scanSockets flagsIdx stIdx pathIdx pid appPackageName (line # lines) =
     (case checkSocketRow flagsIdx stIdx pathIdx pid appPackageName line of
        Continue \<Rightarrow> scanSockets flagsIdx stIdx pathIdx pid appPackageName lines
      | Return name \<Rightarrow> Inr (Some name)
      | Throw e \<Rightarrow> Inl e)"

text \<open>The handler of \<open>getSocketsResult\<close>: the header gives the positions of the columns.\<close>

definition findAbstractName :: "string option \<Rightarrow> string \<Rightarrow> string \<Rightarrow> js_error + string option" where
  "findAbstractName pid appPackageName getSocketsResult =
     (case split [CHR 0x0A] getSocketsResult of
        [] \<Rightarrow> Inl TypeError
      | header # lines \<Rightarrow>
          let keys = fieldsOf header
          in scanSockets (indexOf keys ''Flags'') (indexOf keys ''St'') (indexOf keys ''Path'')
               pid appPackageName lines)"


section \<open>iOS: validation of the target, and the webviews\<close>

definition invalidTargetMessage :: string where
  "invalidTargetMessage =
     ''Invalid target. Please, check target parameter value in your debug configuration and make sure it''
     @ [CHR 0x27] @ ''s a valid iPhone device identifier. Proceed to https://aka.ms/AA3xq86 for more information.''"

text \<open>
  The list of simulators read from the output of \<open>emulate ios --list\<close>: the heading is
  removed, and each line gives \<^verbatim>\<open>value.match(/(.*)(?=,)/gm)\<close>, of which the first match, with
  its first tab removed, is the identifier; a line without a match gives \<open>null\<close>.
\<close>

definition simulatorOfLine :: "string \<Rightarrow> string option" where
  "simulatorOfLine v =
     (case exec False (Seq (Grp 1 (Rep 0 None dot)) (Look (Lit CHR '',''))) v of
        None \<Rightarrow> None
      | Some m \<Rightarrow> Some (removeFirst False (Lit (CHR 0x09)) (matched m)))"

definition emulators :: "string \<Rightarrow> string option list" where
  "emulators listed =
     map simulatorOfLine
       (split [CHR 0x0A] (removeFirst False (lits ''Available iOS Simulators:'') listed))"

text \<open>
  The target that \<open>launchIos\<close> and \<open>attachIos\<close> pass to the check:
  \<^verbatim>\<open>attachArgs.target.toLowerCase() === "emulator" ? "emulator" : attachArgs.target\<close>
\<close>

definition iosTarget :: "string \<Rightarrow> string" where
  "iosTarget t = (if toLowerCase t = ''emulator'' then ''emulator'' else t)"

text \<open>
  \<open>checkIfTargetIsiOSSimulator(target, ...)\<close>. \<open>listing\<close> is the outcome of the command
  \<open>emulate ios --list\<close>: the error of a failed command, or its stdout and stderr. The
  result is \<open>Inl\<close> with the error when the function throws or its promise is rejected, and
  \<open>Inr ()\<close> when the promise is fulfilled.
\<close>

definition checkIfTargetIsiOSSimulator :: "string \<Rightarrow> js_error + (string \<times> string) \<Rightarrow> js_error + unit" where
  "checkIfTargetIsiOSSimulator tgt listing =
     (if tgt = ''emulator'' then Inl (Error invalidTargetMessage)
      else case listing of
             Inl err \<Rightarrow> Inl err
           | Inr output \<Rightarrow>
               if indexOf (emulators (fst output)) (Some tgt) \<ge> 0
               then Inl (Error invalidTargetMessage)
               else Inr ())"

text \<open>
  \<open>encodeURIComponent\<close> on code units below 256: letters, digits and \<open>-_.!~*'()\<close> are kept,
  every other unit is written as the bytes of its UTF-8 form, each as \<open>%\<close> and two capital
  hexadecimal digits.
\<close>

definition hexDigit :: "bool \<Rightarrow> bool \<Rightarrow> bool \<Rightarrow> bool \<Rightarrow> char" where
  "hexDigit b0 b1 b2 b3 =
     ''0123456789ABCDEF'' ! (of_bool b0 + 2 * of_bool b1 + 4 * of_bool b2 + 8 * of_bool b3)"

definition percent :: "char \<Rightarrow> string" where
  "percent c =
     (case c of Char b0 b1 b2 b3 b4 b5 b6 b7 \<Rightarrow>
        [CHR ''%'', hexDigit b4 b5 b6 b7, hexDigit b0 b1 b2 b3])"

definition unreserved :: "char \<Rightarrow> bool" where
  "unreserved c =
     inRanges ([rng CHR ''A'' CHR ''Z'', rng CHR ''a'' CHR ''z'', rng CHR ''0'' CHR ''9'']
               @ chars (''-_.!~*()'' @ [CHR 0x27])) c"

definition encodeUnit :: "char \<Rightarrow> string" where
  "encodeUnit c =
     (if unreserved c then [c]
      else case c of Char b0 b1 b2 b3 b4 b5 b6 b7 \<Rightarrow>
             if \<not> b7 then percent c
             else percent (Char b6 b7 False False False False True True)
                  @ percent (Char b0 b1 b2 b3 b4 b5 False True))"

definition encodeURIComponent :: "string \<Rightarrow> string" where
  "encodeURIComponent s = concat (map encodeUnit s)"

text \<open>
  A value of the JSON that the inspector port answers, as far as a call of \<open>indexOf\<close> on
  it can tell: a string, an array, or any other value (\<open>undefined\<close>, \<open>null\<close>, a number, a
  boolean, an object), which has no function \<open>indexOf\<close>, so that the call throws.
\<close>

datatype json = JString string | JArray "json list" | JOther

text \<open>
  An entry of the list that the inspector port answers. Only its \<open>url\<close> is read; it is
  \<open>JOther\<close> when the entry has no property of that name.
\<close>

record webview =
  url :: json

text \<open>
  \<open>s.indexOf(x)\<close> on a string: the first position at which \<open>x\<close> occurs in \<open>s\<close>, and \<open>-1\<close>
  when it does not occur.
\<close>

fun stringIndexFrom :: "int \<Rightarrow> string \<Rightarrow> string \<Rightarrow> int" where
  "stringIndexFrom i [] x = (if x = [] then i else -1)"
| "stringIndexFrom i (c # cs) x =
     (if prefix x (c # cs) then i else stringIndexFrom (i + 1) cs x)"

definition stringIndexOf :: "string \<Rightarrow> string \<Rightarrow> int" where
  "stringIndexOf s x = stringIndexFrom 0 s x"

text \<open>
  \<open>entry.url.indexOf(x)\<close> for a string \<open>x\<close>: the method of the string or of the array,
  which compares its elements with \<open>===\<close>; \<open>None\<close> when the call throws.
\<close>

definition urlIndexOf :: "json \<Rightarrow> string \<Rightarrow> int option" where
  "urlIndexOf v x =
     (case v of
        JString u \<Rightarrow> Some (stringIndexOf u x)
      | JArray vs \<Rightarrow> Some (indexOf vs (JString x))
      | JOther \<Rightarrow> None)"

text \<open>
  \<open>xs.some(p)\<close>: the callback is called on the elements in order until it returns true;
  \<open>None\<close> when a call throws.
\<close>

fun some :: "('a \<Rightarrow> bool option) \<Rightarrow> 'a list \<Rightarrow> bool option" where
  "some p [] = Some False"
| "some p (x # xs) =
     (case p x of
        None \<Rightarrow> None
      | Some found \<Rightarrow> if found then Some True else some p xs)"

text \<open>
  The callback of \<open>webviewsList.filter\<close>: \<open>None\<close> when it throws. \<open>ionicDevServerUrls\<close> is
  the property of the launcher, \<open>None\<close> while it is \<open>undefined\<close>; an empty array is truthy,
  and \<open>some\<close> on it is false without reading the entry.
  \<^verbatim>\<open>this.ionicDevServerUrls.some(url => entry.url.indexOf(url) === 0)\<close> and
  \<^verbatim>\<open>entry.url.indexOf(encodeURIComponent(packagePath)) !== -1\<close>
\<close>

definition isTargetWebview :: "string list option \<Rightarrow> string \<Rightarrow> webview \<Rightarrow> bool option" where
  "isTargetWebview ionicDevServerUrls packagePath entry =
     (case ionicDevServerUrls of
        Some urls \<Rightarrow> some (\<lambda>x. map_option (\<lambda>i. i = 0) (urlIndexOf (url entry) x)) urls
      | None \<Rightarrow>
          map_option (\<lambda>i. i \<noteq> -1) (urlIndexOf (url entry) (encodeURIComponent packagePath)))"

fun filterWebviews :: "(webview \<Rightarrow> bool option) \<Rightarrow> webview list \<Rightarrow> webview list option" where
  "filterWebviews p [] = Some []"
| "filterWebviews p (e # es) =
     (case p e of
        None \<Rightarrow> None
      | Some keep \<Rightarrow>
          (case filterWebviews p es of
             None \<Rightarrow> None
           | Some kept \<Rightarrow> Some (if keep then e # kept else kept)))"

record found_views =
  relevantViews :: "webview list"
  targetPort :: nat

definition fallbackWarning :: string where
  "fallbackWarning = ''Unable to find target app webview, trying to fallback to the only running webview''"

text \<open>
  One call of the function that \<open>findWebViews\<close> retries: from the outcome of the request to
  \<open>http://localhost:<targetPort>/json\<close> to the lines logged and the views found. The
  response is \<open>Inl\<close> with the error of a failed request; a body that is not a JSON array
  is \<open>Inr None\<close>. Every exception inside the \<open>try\<close> block becomes
  \<open>Unable to find target app\<close>.
\<close>

definition webviewsProbe ::
  "string list option \<Rightarrow> string \<Rightarrow> nat \<Rightarrow> js_error + webview list option \<Rightarrow>
   string list \<times> (js_error + found_views)" where
  "webviewsProbe ionicDevServerUrls packagePath devicePort response =
     (case response of
        Inl err \<Rightarrow> ([], Inl err)
      | Inr None \<Rightarrow> ([], Inl (Error ''Unable to find target app''))
      | Inr (Some webviewsList) \<Rightarrow>
          (case filterWebviews (isTargetWebview ionicDevServerUrls packagePath) webviewsList of
             None \<Rightarrow> ([], Inl (Error ''Unable to find target app''))
           | Some foundWebViews \<Rightarrow>
               if foundWebViews = [] \<and> length webviewsList = 1
               then ([fallbackWarning], Inr \<lparr>relevantViews = webviewsList, targetPort = devicePort\<rparr>)
               else if foundWebViews = []
               then ([], Inl (Error ''Unable to find target app''))
               else ([], Inr \<lparr>relevantViews = foundWebViews, targetPort = devicePort\<rparr>)))"

text \<open>
  Modelled from the spec: \<open>retryAsync\<close> of \<open>utils/extensionHelper\<close>, which is not among the
  sources. The spec (RetryRunner) gives it the contract
  \<open>retry(probe, accept, maxAttempts, initialDelayMs, delayMs, failureMessage)\<close>: it calls
  the probe; an attempt whose probe rejects, or resolves with a result that \<open>accept\<close>
  refuses, has failed; after a failed attempt it waits \<open>delayMs\<close> (the first wait is
  \<open>initialDelayMs\<close>) and calls the probe again, up to \<open>maxAttempts\<close> attempts in all; when
  they are used up it fails with \<open>failureMessage\<close>. The delay does not grow. The probe is
  given as the outcome of its \<open>i\<close>-th call. The result is the outcome, the number of calls
  of the probe, and the waits in the order in which they were made, in milliseconds.
  \<open>wait\<close> is the wait that follows the attempt if it fails.
\<close>

fun retryFrom ::
  "(nat \<Rightarrow> js_error + 'a) \<Rightarrow> ('a \<Rightarrow> bool) \<Rightarrow> nat \<Rightarrow> string \<Rightarrow> nat \<Rightarrow> nat \<Rightarrow> nat \<Rightarrow>
   (js_error + 'a) \<times> nat \<times> nat list" where
  "retryFrom probe accept delayMs failureMessage 0 wait i = (Inl (Error failureMessage), i, [])"
| "retryFrom probe accept delayMs failureMessage (Suc attemptsLeft) wait i =
     (if (case probe i of Inr result \<Rightarrow> accept result | Inl err \<Rightarrow> False)
      then (probe i, Suc i, [])
      else if attemptsLeft = 0 then (Inl (Error failureMessage), Suc i, [])
      else (case retryFrom probe accept delayMs failureMessage attemptsLeft delayMs (Suc i) of
              (outcome, n, waits) \<Rightarrow> (outcome, n, wait # waits)))"

text \<open>
  Modelled from the spec: the entry of \<open>retryAsync\<close>, which starts with the first attempt,
  \<open>maxAttempts\<close> attempts left and \<open>initialDelayMs\<close> as the first wait.
\<close>

definition retryAsync ::
  "(nat \<Rightarrow> js_error + 'a) \<Rightarrow> ('a \<Rightarrow> bool) \<Rightarrow> nat \<Rightarrow> nat \<Rightarrow> nat \<Rightarrow> string \<Rightarrow>
   (js_error + 'a) \<times> nat \<times> nat list" where
  "retryAsync probe accept maxAttempts initialDelayMs delayMs failureMessage =
     retryFrom probe accept delayMs failureMessage maxAttempts initialDelayMs 0"

text \<open>
  \<open>findWebViews({ packagePath, targetPort })\<close>, which is
  \<^verbatim>\<open>retry(() => promiseGet(...).then(...), (result) => result.relevantViews.length > 0, 5)\<close>
  where \<open>retry(func, condition, retryCount)\<close> is
  \<^verbatim>\<open>retryAsync(func, condition, retryCount, 1, attachArgs.attachDelay, "Unable to find webview")\<close>
  after \<^verbatim>\<open>attachArgs.attachDelay = attachArgs.attachDelay || 1000;\<close>.
  \<open>attachDelay\<close> is the value of the request, \<open>None\<close> when it is not set, and
  \<open>responses i\<close> is the outcome of the \<open>i\<close>-th request. The result is the outcome, the
  number of requests made and the waits between them.
\<close>

definition findWebViews ::
  "string list option \<Rightarrow> string \<Rightarrow> nat \<Rightarrow> nat option \<Rightarrow> (nat \<Rightarrow> js_error + webview list option) \<Rightarrow>
   (js_error + found_views) \<times> nat \<times> nat list" where
  "findWebViews ionicDevServerUrls packagePath devicePort attachDelay responses =
     (let delay = (case attachDelay of None \<Rightarrow> 1000 | Some d \<Rightarrow> if d = 0 then 1000 else d)
      in retryAsync (\<lambda>i. snd (webviewsProbe ionicDevServerUrls packagePath devicePort (responses i)))
           (\<lambda>result. length (relevantViews result) > 0) 5 1 delay ''Unable to find webview'')"

section \<open>runAdbCommand: the PATH of the process\<close>

text \<open>
  \<open>process.env\<close> is a map from names to strings. Reading a name that is not set gives
  \<open>undefined\<close>. Node converts a value that is assigned to a property of \<open>process.env\<close> to
  a string, so that assigning \<open>undefined\<close> stores the string \<open>undefined\<close>, as the operator
  \<open>+\<close> does when it appends a string to \<open>undefined\<close>.
\<close>

type_synonym env = "string \<Rightarrow> string option"

text \<open>
  \<open>runAdbCommand(args, errorLogger)\<close>. \<open>delimiter\<close> and \<open>joinPath\<close> are \<open>path.delimiter\<close>
  and \<open>path.join\<close> of the platform. \<open>execCommand\<close> is the outcome of
  \<open>execCommand("adb", args, errorLogger)\<close> in the environment it is started in: \<open>Inr\<close> its
  output when the promise is fulfilled, \<open>Inl\<close> the error when it is rejected; it leaves the
  environment of the process as it is. The result is that outcome, the environment while
  the command runs, and the environment after the \<open>finally\<close> handler.
\<close>

definition runAdbCommand ::
  "string \<Rightarrow> (string \<Rightarrow> string \<Rightarrow> string) \<Rightarrow> (env \<Rightarrow> js_error + string) \<Rightarrow> env \<Rightarrow>
   (js_error + string) \<times> env \<times> env" where
  "runAdbCommand delimiter joinPath execCommand processEnv =
     (let originalPath = processEnv ''PATH'';
          running =
            (case processEnv ''ANDROID_HOME'' of
               None \<Rightarrow> processEnv
             | Some home \<Rightarrow>
                 if home = [] then processEnv
                 else processEnv(''PATH'' \<mapsto>
                        templ originalPath @ delimiter @ joinPath home ''platform-tools''));
          outcome = execCommand running;
          restored = running(''PATH'' \<mapsto> templ originalPath)
      in (outcome, running, restored))"


section \<open>attach\<close>

text \<open>
  What \<open>attach\<close> calls outside the class: \<open>CordovaProjectHelper.getCordovaProjectRoot\<close>,
  the outcome of \<open>cordovaCdpProxy.createServer()\<close> and of
  \<open>TelemetryHelper.determineProjectTypes\<close>, and the two endpoint resolvers
  \<open>attachAndroid\<close> and \<open>attachIos\<close>, each as the outcome of its promise. Telemetry is
  taken to be initialised and to record without failing, and \<open>TelemetryHelper.generate\<close> to
  return the promise of its callback.
\<close>

record attach_env =
  getCordovaProjectRoot :: "string option \<Rightarrow> string option"
  createServer :: "js_error + unit"
  determineProjectTypes :: "js_error + unit"
  attachAndroid :: "requestArgs \<Rightarrow> js_error + requestArgs"
  attachIos :: "requestArgs \<Rightarrow> js_error + requestArgs"

text \<open>
  What a call of \<open>attach\<close> leaves: the state of the promise it returned, the outcome of the
  chain built inside \<open>TelemetryHelper.generate\<close>, the port given to
  \<open>setApplicationTargetPort\<close>, and the endpoint resolvers that were called.
\<close>

record attach_run =
  returned :: "requestArgs deferred"
  chain :: "js_error + requestArgs"
  applicationTargetPort :: "nat option"
  resolversCalled :: "string list"

text \<open>
  The assignments at the head of the callback:
  \<^verbatim>\<open>attachArgs.port = attachArgs.port || 9222; attachArgs.target = attachArgs.target || "emulator";\<close>
  \<^verbatim>\<open>attachArgs.cwd = CordovaProjectHelper.getCordovaProjectRoot(attachArgs.cwd);\<close>
  \<^verbatim>\<open>attachArgs.timeout = attachArgs.attachTimeout;\<close>
\<close>

definition normalize :: "attach_env \<Rightarrow> requestArgs \<Rightarrow> requestArgs" where
  "normalize world attachArgs =
     attachArgs\<lparr>
       port := Some (case port attachArgs of None \<Rightarrow> 9222 | Some p \<Rightarrow> if p = 0 then 9222 else p),
       target := Some (case target attachArgs of
                         None \<Rightarrow> ''emulator''
                       | Some t \<Rightarrow> if t = [] then ''emulator'' else t),
       cwd := getCordovaProjectRoot world (cwd attachArgs),
       timeout := attachTimeout attachArgs\<rparr>"

text \<open>
  \<open>attach(attachArgs)\<close>. The executor of the returned promise ends with
  \<^verbatim>\<open>.catch((err) => { reject(err); }).done(() => resolve, reject)\<close>: a failure of the chain
  rejects the returned promise, and on success the handler \<open>() => resolve\<close> returns the
  function \<open>resolve\<close> without calling it.
\<close>

definition attach :: "attach_env \<Rightarrow> requestArgs \<Rightarrow> attach_run" where
  "attach world attachArgs0 =
     (let attachArgs = normalize world attachArgs0;
          platformL = map_option toLowerCase (platform attachArgs);
          targetL = map_option toLowerCase (target attachArgs);
          (outcome, called) =
            (case createServer world of
               Inl err \<Rightarrow> (Inl err, [])
             | Inr _ \<Rightarrow>
                 (case determineProjectTypes world of
                    Inl err \<Rightarrow> (Inl err, [])
                  | Inr _ \<Rightarrow>
                      if targetL = Some ''device'' \<or> targetL = Some ''emulator''
                      then (if platformL = Some ''android''
                            then (attachAndroid world attachArgs, [''android''])
                            else if platformL = Some ''ios''
                            then (attachIos world attachArgs, [''ios''])
                            else (Inl (Error (''Unknown Platform: '' @ templ platformL)), []))
                      else (Inr attachArgs, [])))
      in \<lparr>returned = (case outcome of Inl err \<Rightarrow> reject err Pending | Inr _ \<Rightarrow> Pending),
          chain = outcome,
          applicationTargetPort = port attachArgs,
          resolversCalled = called\<rparr>)"


section \<open>Notions used in the proofs about the detector\<close>

text \<open>
  In a list of calls, every \<open>appDeferred.resolve\<close> comes after a \<open>serverDeferred.resolve\<close>
  and none before one.
\<close>

abbreviation resolvedInOrder :: "call list \<Rightarrow> bool" where
  "resolvedInOrder cs \<equiv>
     (\<forall>pre urls post. cs = pre @ AppResolve urls # post \<longrightarrow>
        ServerResolve \<in> set pre \<and> ServerResolve \<notin> set post)"

text \<open>
  What holds of the detector between two chunks: \<open>serverReady\<close> is set exactly when
  \<open>serverDeferred.resolve\<close> has been called, a resolved \<open>appDeferred\<close> carries the value of
  a recorded call, and the calls are in order.
\<close>

abbreviation detectorInv :: "server_session \<Rightarrow> bool" where
  "detectorInv s \<equiv>
     (serverReady s \<longleftrightarrow> ServerResolve \<in> set (calls s)) \<and>
     (\<forall>u. appDeferred s = Resolved u \<longrightarrow> AppResolve u \<in> set (calls s)) \<and>
     resolvedInOrder (calls s)"


text \<open>
  A regular expression without \<open>$\<close>. What such an expression matches in a text, it matches
  in every text that continues it, so that a test that holds of the accumulated output holds
  after every later chunk.
\<close>

primrec eolFree :: "regex \<Rightarrow> bool" where
  "eolFree (Lit c) = True"
| "eolFree (Cls neg rs) = True"
| "eolFree (Seq r1 r2) = (eolFree r1 \<and> eolFree r2)"
| "eolFree (Alt r1 r2) = (eolFree r1 \<and> eolFree r2)"
| "eolFree (Rep mn mx r) = eolFree r"
| "eolFree (Grp k r) = eolFree r"
| "eolFree (Look r) = eolFree r"
| "eolFree Eol = False"
| "eolFree Eps = True"
section \<open>Properties of the matcher\<close>

text \<open>A match never produces text: what remains after it is a suffix of the input.\<close>

lemma rep_suffix:
  "\<forall>st st'. st' \<in> set (f st) \<longrightarrow> suffix (fst st') (fst st) \<Longrightarrow>
   st' \<in> set (rep f mn mx st) \<Longrightarrow> suffix (fst st') (fst st)"
proof (induction f mn mx st arbitrary: st' rule: rep.induct)
  case (1 f mn mx st)
  show ?case
  proof (cases "mx = Some 0")
    case True
    with "1.prems" show ?thesis by (simp add: rep.simps)
  next
    case False
    from "1.prems"(2) False consider
      (iter) x where "x \<in> set (f st)"
         "length (fst x) < length (fst st) \<or> (length (fst x) = length (fst st) \<and> 0 < mn)"
         "st' \<in> set (rep f (mn - 1) (decr mx) x)"
      | (stop) "st' = st"
      by (subst (asm) rep.simps) (auto split: if_splits)
    then show ?thesis
    proof cases
      case iter
      have "suffix (fst st') (fst x)"
        using "1.IH"[OF False iter(1) iter(2) "1.prems"(1) iter(3)] .
      moreover have "suffix (fst x) (fst st)" using "1.prems"(1) iter(1) by blast
      ultimately show ?thesis by (rule suffix_order.trans)
    next
      case stop
      then show ?thesis by simp
    qed
  qed
qed

lemma ms_suffix: "st' \<in> set (ms r ci st) \<Longrightarrow> suffix (fst st') (fst st)"
proof (induction r arbitrary: st st')
  case (Lit a)
  then show ?case by (cases st) (auto split: list.splits if_splits simp: suffix_Cons)
next
  case (Cls neg rs)
  then show ?case by (cases st) (auto split: list.splits if_splits simp: suffix_Cons)
next
  case (Seq r1 r2)
  from Seq.prems obtain x where x: "x \<in> set (ms r1 ci st)" "st' \<in> set (ms r2 ci x)"
    by auto
  have "suffix (fst st') (fst x)" using Seq.IH(2)[OF x(2)] .
  moreover have "suffix (fst x) (fst st)" using Seq.IH(1)[OF x(1)] .
  ultimately show ?case by (rule suffix_order.trans)
next
  case (Alt r1 r2)
  from Alt.prems have "st' \<in> set (ms r1 ci st) \<or> st' \<in> set (ms r2 ci st)" by simp
  then show ?case using Alt.IH by blast
next
  case (Rep mn mx r)
  then show ?case using rep_suffix[of "ms r ci"] by auto
next
  case (Grp k r)
  from Grp.prems obtain x where "x \<in> set (ms r ci st)" "fst st' = fst x" by auto
  then show ?case using Grp.IH by metis
next
  case (Look r)
  then show ?case by (auto split: if_splits)
next
  case Eol
  then show ?case by (auto split: list.splits if_splits)
next
  case Eps
  then show ?case by simp
qed

lemma ms_Seq_Cls_shorter:
  assumes "st' \<in> set (ms (Seq (Cls neg rs) r) ci st)"
  shows "length (fst st') < length (fst st)"
proof -
  from assms obtain x where x: "x \<in> set (ms (Cls neg rs) ci st)" and r: "st' \<in> set (ms r ci x)"
    by auto
  from x have "length (fst x) < length (fst st)"
    by (cases "fst st") (auto split: if_splits)
  moreover from ms_suffix[OF r] have "length (fst st') \<le> length (fst x)"
    by (rule suffix_length_le)
  ultimately show ?thesis by simp
qed

lemma ms_Rep_pos_shorter:
  assumes f: "\<And>st x. x \<in> set (ms r ci st) \<Longrightarrow> length (fst x) < length (fst st)"
    and mn: "0 < mn"
    and st': "st' \<in> set (ms (Rep mn None r) ci st)"
  shows "length (fst st') < length (fst st)"
proof -
  from st' have "st' \<in> set (rep (ms r ci) mn None st)" by simp
  with mn obtain x where x: "x \<in> set (ms r ci st)" "st' \<in> set (rep (ms r ci) (mn - 1) (decr None) x)"
    by (subst (asm) rep.simps) (auto split: if_splits)
  have "suffix (fst st') (fst x)"
    using rep_suffix[of "ms r ci" st' "mn - 1" "decr None" x] ms_suffix x(2) by blast
  then have "length (fst st') \<le> length (fst x)" by (rule suffix_length_le)
  with f[OF x(1)] show ?thesis by simp
qed

lemma execFrom_Some:
  "execFrom ci r pre s = Some m \<Longrightarrow>
   \<exists>t st rest. suffix t s \<and> ms r ci (t, []) = st # rest \<and> after m = fst st \<and>
      groups m = snd st \<and> matched m = take (length t - length (fst st)) t"
proof (induction s arbitrary: pre)
  case Nil
  then obtain st rest where "ms r ci ([], []) = st # rest"
      "m = \<lparr>before = pre, matched = [], after = [], groups = snd st\<rparr>"
    by (auto split: list.splits)
  moreover from this(1) have "suffix (fst st) []" using ms_suffix[of st r ci "([], [])"] by simp
  ultimately show ?case by (intro exI[of _ "[]"] exI[of _ st] exI[of _ rest]) simp
next
  case (Cons c cs)
  show ?case
  proof (cases "ms r ci (c # cs, [])")
    case Nil
    with Cons.prems have "execFrom ci r (pre @ [c]) cs = Some m" by simp
    from Cons.IH[OF this] show ?thesis by (meson suffix_Cons)
  next
    case (Cons st rest)
    with Cons.prems have "m = \<lparr>before = pre,
        matched = take (length (c # cs) - length (fst st)) (c # cs),
        after = fst st, groups = snd st\<rparr>" by simp
    with Cons show ?thesis
      by (intro exI[of _ "c # cs"] exI[of _ st] exI[of _ rest]) simp
  qed
qed

lemma exec_after_shorter:
  assumes "\<And>t st. st \<in> set (ms r ci (t, [])) \<Longrightarrow> length (fst st) < length t"
    and "exec ci r s = Some m"
  shows "length (after m) < length s"
proof -
  from execFrom_Some[OF assms(2)[unfolded exec_def]] obtain t st rest where
    t: "suffix t s" "ms r ci (t, []) = st # rest" "after m = fst st" by blast
  then have "st \<in> set (ms r ci (t, []))" by simp
  from assms(1)[OF this] have "length (fst st) < length t" .
  moreover have "length t \<le> length s" using t(1) by (rule suffix_length_le)
  ultimately show ?thesis using t(3) by simp
qed

lemma execAll_total:
  assumes "\<And>t st. st \<in> set (ms r ci (t, [])) \<Longrightarrow> length (fst st) < length t"
  shows "\<exists>found. execAll ci r s = Some found"
proof (induction s rule: length_induct)
  case (1 s)
  show ?case
  proof (cases "exec ci r s")
    case None
    then show ?thesis by (subst execAll.simps) simp
  next
    case (Some m)
    have lt: "length (after m) < length s" using exec_after_shorter[OF assms Some] .
    with 1 obtain found where "execAll ci r (after m) = Some found" by blast
    with Some lt show ?thesis by (subst execAll.simps) simp
  qed
qed

lemma ms_Grp_elim:
  "st \<in> set (ms (Grp k r) ci st0) \<Longrightarrow>
   \<exists>y \<in> set (ms r ci st0).
      st = (fst y, (k, take (length (fst st0) - length (fst y)) (fst st0)) # snd y)"
  by auto

lemma ms_Seq_elim:
  "st \<in> set (ms (Seq r1 r2) ci st0) \<Longrightarrow> \<exists>x \<in> set (ms r1 ci st0). st \<in> set (ms r2 ci x)"
  by auto

lemma execAll_elems_suffix:
  "execAll ci r s = Some found \<Longrightarrow> m \<in> set found \<Longrightarrow> \<exists>t. suffix t s \<and> exec ci r t = Some m"
proof (induction s arbitrary: found rule: length_induct)
  case (1 s)
  show ?case
  proof (cases "exec ci r s")
    case None
    with "1.prems" show ?thesis by (subst (asm) execAll.simps) simp
  next
    case (Some m0)
    with "1.prems"(1) obtain found' where
      f: "length (after m0) < length s" "execAll ci r (after m0) = Some found'" "found = m0 # found'"
      by (subst (asm) execAll.simps) (auto split: if_splits)
    show ?thesis
    proof (cases "m = m0")
      case True
      with Some show ?thesis by blast
    next
      case False
      with f(3) "1.prems"(2) have "m \<in> set found'" by simp
      with 1 f obtain t where t: "suffix t (after m0)" "exec ci r t = Some m" by blast
      from execFrom_Some[OF Some[unfolded exec_def]] obtain u st rest where
        u: "suffix u s" "ms r ci (u, []) = st # rest" "after m0 = fst st" by blast
      then have "st \<in> set (ms r ci (u, []))" by simp
      from ms_suffix[OF this] u have "suffix (after m0) s"
        by (metis fst_conv suffix_order.trans)
      with t show ?thesis by (meson suffix_order.trans)
    qed
  qed
qed

lemma exec_matched_sublist:
  assumes "exec ci r t = Some m"
  shows "sublist (matched m) t"
proof -
  from execFrom_Some[OF assms[unfolded exec_def]] obtain u and st :: mstate where
    u: "suffix u t" "matched m = take (length u - length (fst st)) u" by blast
  have "sublist (matched m) u"
    unfolding u(2) by (metis append_take_drop_id sublist_append_rightI)
  moreover have "sublist u t" using u(1) by (rule suffix_imp_sublist)
  ultimately show ?thesis by (rule sublist_order.order.trans)
qed

lemma join_sublist: "Some x \<in> set xs \<Longrightarrow> sublist x (join sep xs)"
proof (induction sep xs rule: join.induct)
  case (1 sep)
  then show ?case by simp
next
  case (2 sep y)
  then have "y = Some x" by simp
  then show ?case by simp
next
  case (3 sep y z zs)
  show ?case
  proof (cases "y = Some x")
    case True
    then have "join sep (y # z # zs) = x @ sep @ join sep (z # zs)" by simp
    then show ?thesis by (simp only: sublist_append_rightI)
  next
    case False
    with 3 have "sublist x (join sep (z # zs))" by auto
    then have "sublist x (((case y of None \<Rightarrow> [] | Some v \<Rightarrow> v) @ sep) @ join sep (z # zs))"
      by (simp only: sublist_append) blast
    then show ?thesis by simp
  qed
qed

text \<open>
  A match in a text is a match in every continuation of the text, for an expression
  without \<open>$\<close>.
\<close>

lemma rep_append:
  "\<forall>st x. x \<in> set (f st) \<longrightarrow> (fst x @ t, snd x) \<in> set (f (fst st @ t, snd st)) \<Longrightarrow>
   x \<in> set (rep f mn mx st) \<Longrightarrow> (fst x @ t, snd x) \<in> set (rep f mn mx (fst st @ t, snd st))"
proof (induction f mn mx st arbitrary: x rule: rep.induct)
  case (1 f mn mx st)
  show ?case
  proof (cases "mx = Some 0")
    case True
    with "1.prems"(2) show ?thesis by (simp add: rep.simps)
  next
    case False
    from "1.prems"(2) False consider
      (iter) y where "y \<in> set (f st)"
         "length (fst y) < length (fst st) \<or> (length (fst y) = length (fst st) \<and> 0 < mn)"
         "x \<in> set (rep f (mn - 1) (decr mx) y)"
      | (stop) "mn = 0" "x = st"
      by (subst (asm) rep.simps) (auto split: if_splits)
    then show ?thesis
    proof cases
      case iter
      have a: "(fst y @ t, snd y) \<in> set (f (fst st @ t, snd st))"
        using "1.prems"(1) iter(1) by blast
      have b: "(fst x @ t, snd x) \<in> set (rep f (mn - 1) (decr mx) (fst y @ t, snd y))"
        using "1.IH"[OF False iter(1) iter(2) "1.prems"(1) iter(3)] .
      from iter(2) have c: "length (fst (fst y @ t, snd y)) < length (fst (fst st @ t, snd st)) \<or>
          (length (fst (fst y @ t, snd y)) = length (fst (fst st @ t, snd st)) \<and> 0 < mn)"
        by simp
      show ?thesis
        by (subst rep.simps) (use False a b c in \<open>auto intro!: bexI[of _ "(fst y @ t, snd y)"]\<close>)
    next
      case stop
      with False show ?thesis by (subst rep.simps) simp
    qed
  qed
qed

lemma ms_append:
  "eolFree r \<Longrightarrow> x \<in> set (ms r ci st) \<Longrightarrow> (fst x @ t, snd x) \<in> set (ms r ci (fst st @ t, snd st))"
proof (induction r arbitrary: st x)
  case (Lit a)
  then show ?case by (cases "fst st") (auto split: if_splits)
next
  case (Cls neg rs)
  then show ?case by (cases "fst st") (auto split: if_splits)
next
  case (Seq r1 r2)
  from Seq.prems obtain y where y: "y \<in> set (ms r1 ci st)" "x \<in> set (ms r2 ci y)" by auto
  from Seq.prems(1) have e: "eolFree r1" "eolFree r2" by simp_all
  have "(fst y @ t, snd y) \<in> set (ms r1 ci (fst st @ t, snd st))" using Seq.IH(1)[OF e(1) y(1)] .
  moreover have "(fst x @ t, snd x) \<in> set (ms r2 ci (fst y @ t, snd y))"
    using Seq.IH(2)[OF e(2) y(2)] .
  ultimately show ?case by auto
next
  case (Alt r1 r2)
  from Alt.prems have "x \<in> set (ms r1 ci st) \<or> x \<in> set (ms r2 ci st)" by simp
  with Alt.IH Alt.prems(1) show ?case by auto
next
  case (Rep mn mx r)
  from Rep.prems have e: "eolFree r" and x: "x \<in> set (rep (ms r ci) mn mx st)" by simp_all
  have "(fst x @ t, snd x) \<in> set (rep (ms r ci) mn mx (fst st @ t, snd st))"
    by (rule rep_append[OF _ x]) (use Rep.IH[OF e] in blast)
  then show ?case by simp
next
  case (Grp k r)
  from Grp.prems obtain y where y: "y \<in> set (ms r ci st)"
      "x = (fst y, (k, take (length (fst st) - length (fst y)) (fst st)) # snd y)"
    by auto
  from Grp.prems(1) have "eolFree r" by simp
  from Grp.IH[OF this y(1)] have "(fst y @ t, snd y) \<in> set (ms r ci (fst st @ t, snd st))" .
  then have "(fst y @ t, (k, take (length (fst st @ t) - length (fst y @ t)) (fst st @ t)) # snd y)
      \<in> set (ms (Grp k r) ci (fst st @ t, snd st))"
    by (auto intro!: image_eqI[of _ _ "(fst y @ t, snd y)"])
  moreover have "take (length (fst st @ t) - length (fst y @ t)) (fst st @ t) =
      take (length (fst st) - length (fst y)) (fst st)"
    by simp
  ultimately show ?case using y(2) by simp
next
  case (Look r)
  from Look.prems have x: "x = st" and "ms r ci st \<noteq> []" by (auto split: if_splits)
  then obtain y where "y \<in> set (ms r ci st)" by (cases "ms r ci st") auto
  with Look.IH Look.prems(1) have "(fst y @ t, snd y) \<in> set (ms r ci (fst st @ t, snd st))" by simp
  then have "ms r ci (fst st @ t, snd st) \<noteq> []" by auto
  with x show ?case by simp
next
  case Eol
  then show ?case by simp
next
  case Eps
  then show ?case by simp
qed

lemma execFrom_start: "ms r ci (s, []) \<noteq> [] \<Longrightarrow> execFrom ci r pre s \<noteq> None"
  by (cases s) (auto split: list.splits)

lemma execFrom_append:
  "eolFree r \<Longrightarrow> execFrom ci r pre s \<noteq> None \<Longrightarrow> execFrom ci r pre' (s @ t) \<noteq> None"
proof (induction s arbitrary: pre pre')
  case Nil
  then obtain st where "st \<in> set (ms r ci ([], []))" by (auto split: list.splits)
  from ms_append[OF Nil.prems(1) this, of t] have "ms r ci (t, []) \<noteq> []" by auto
  then show ?case using execFrom_start by simp
next
  case (Cons c cs)
  show ?case
  proof (cases "ms r ci (c # cs, [])")
    case Nil
    with Cons.prems have "execFrom ci r (pre @ [c]) cs \<noteq> None" by simp
    from Cons.IH[OF Cons.prems(1) this] have "execFrom ci r (pre' @ [c]) (cs @ t) \<noteq> None" .
    then show ?thesis by (auto split: list.splits)
  next
    case (Cons st rest)
    then have "st \<in> set (ms r ci (c # cs, []))" by simp
    from ms_append[OF Cons.prems(1) this, of t] have "ms r ci ((c # cs) @ t, []) \<noteq> []" by auto
    then show ?thesis using execFrom_start by blast
  qed
qed

lemma test_append: "eolFree r \<Longrightarrow> test ci r s \<Longrightarrow> test ci r (s @ t)"
  unfolding test_def exec_def by (rule execFrom_append)

lemma eolFree_lits: "eolFree (lits w)"
  by (induction w) (simp_all add: lits_def)
section \<open>The readiness detector: order of the calls, and termination\<close>

lemma snoc_eq_split:
  assumes "cs @ [c] = pre @ x # post"
  shows "(post = [] \<and> x = c \<and> pre = cs) \<or> (\<exists>post'. post = post' @ [c] \<and> cs = pre @ x # post')"
proof (cases post rule: rev_cases)
  case Nil
  with assms show ?thesis by simp
next
  case (snoc post' y)
  with assms have "cs @ [c] = (pre @ x # post') @ [y]" by simp
  then have "cs = pre @ x # post'" "c = y" by (simp_all only: append1_eq_conv)
  with snoc show ?thesis by simp
qed

lemma inv_snoc_other:
  assumes "detectorInv s" and "calls s' = calls s @ [c]"
    and "c \<noteq> ServerResolve" and "\<forall>u. c \<noteq> AppResolve u"
    and "serverReady s' = serverReady s"
    and "\<forall>u. appDeferred s' = Resolved u \<longrightarrow> appDeferred s = Resolved u"
  shows "detectorInv s'"
proof (intro conjI allI impI)
  show "serverReady s' = (ServerResolve \<in> set (calls s'))"
    using assms by auto
next
  fix u assume "appDeferred s' = Resolved u"
  then show "AppResolve u \<in> set (calls s')" using assms by auto
next
  fix pre urls post assume e: "calls s' = pre @ AppResolve urls # post"
  then have "calls s @ [c] = pre @ AppResolve urls # post" using assms(2) by simp
  from snoc_eq_split[OF this] assms(4)
  obtain post' where p: "post = post' @ [c]" "calls s = pre @ AppResolve urls # post'" by auto
  with assms(1) have "ServerResolve \<in> set pre \<and> ServerResolve \<notin> set post'" by blast
  with p assms(3) show "ServerResolve \<in> set pre" "ServerResolve \<notin> set post" by auto
qed

lemma inv_snoc_server:
  assumes "detectorInv s" and "calls s' = calls s @ [ServerResolve]"
    and "\<not> serverReady s" and "serverReady s'"
    and "appDeferred s' = appDeferred s"
  shows "detectorInv s'"
proof (intro conjI allI impI)
  show "serverReady s' = (ServerResolve \<in> set (calls s'))"
    using assms by auto
next
  fix u assume "appDeferred s' = Resolved u"
  then show "AppResolve u \<in> set (calls s')" using assms by auto
next
  fix pre urls post assume e: "calls s' = pre @ AppResolve urls # post"
  then have "calls s @ [ServerResolve] = pre @ AppResolve urls # post" using assms(2) by simp
  from snoc_eq_split[OF this]
  obtain post' where p: "post = post' @ [ServerResolve]" "calls s = pre @ AppResolve urls # post'" by auto
  with assms(1) have "ServerResolve \<in> set pre" by blast
  with p have "ServerResolve \<in> set (calls s)" by simp
  with assms(1,3) have False by blast
  then show "ServerResolve \<in> set pre" "ServerResolve \<notin> set post" by auto
qed

lemma inv_snoc_app:
  assumes "detectorInv s" and "calls s' = calls s @ [AppResolve v]"
    and "serverReady s" and "serverReady s'"
    and "\<forall>u. appDeferred s' = Resolved u \<longrightarrow> u = v \<or> appDeferred s = Resolved u"
  shows "detectorInv s'"
proof (intro conjI allI impI)
  show "serverReady s' = (ServerResolve \<in> set (calls s'))"
    using assms by auto
next
  fix u assume "appDeferred s' = Resolved u"
  then show "AppResolve u \<in> set (calls s')" using assms by auto
next
  fix pre urls post assume e: "calls s' = pre @ AppResolve urls # post"
  then have "calls s @ [AppResolve v] = pre @ AppResolve urls # post" using assms(2) by simp
  from snoc_eq_split[OF this]
  consider "post = []" "pre = calls s"
    | post' where "post = post' @ [AppResolve v]" "calls s = pre @ AppResolve urls # post'"
    by auto
  then have "ServerResolve \<in> set pre \<and> ServerResolve \<notin> set post"
  proof cases
    case 1
    with assms(1,3) show ?thesis by simp
  next
    case 2
    with assms(1) have "ServerResolve \<in> set pre \<and> ServerResolve \<notin> set post'" by blast
    with 2 show ?thesis by simp
  qed
  then show "ServerResolve \<in> set pre" "ServerResolve \<notin> set post" by auto
qed

lemma resolve_Resolved: "resolve v d = Resolved u \<Longrightarrow> u = v \<or> d = Resolved u"
  by (cases d) (auto simp: resolve_def)

lemma reject_Resolved: "reject e d = Resolved u \<Longrightarrow> d = Resolved u"
  by (cases d) (auto simp: reject_def)

lemma errorStep_inv: "detectorInv s \<Longrightarrow> detectorInv (errorStep cfg s)"
proof (cases "getServerErrorMessage cfg (serverOut s)")
  case None
  assume "detectorInv s"
  with None show ?thesis by (simp add: errorStep_def)
next
  case (Some msg)
  assume i: "detectorInv s"
  show ?thesis
    by (rule inv_snoc_other[OF i, where c = "AppReject (Error msg)"])
       (auto simp: errorStep_def Some dest: reject_Resolved)
qed

lemma serverErrorOutputHandler_inv:
  "detectorInv s \<Longrightarrow> detectorInv (serverErrorOutputHandler cfg s data)"
proof (cases "getServerErrorMessage cfg (serverErr s @ data)")
  case None
  assume "detectorInv s"
  with None show ?thesis by (simp add: serverErrorOutputHandler_def)
next
  case (Some msg)
  assume i: "detectorInv s"
  show ?thesis
    by (rule inv_snoc_other[OF i, where c = "AppReject (Error msg)"])
       (auto simp: serverErrorOutputHandler_def Some dest: reject_Resolved)
qed

lemma multipleStep_inv:
  assumes "detectorInv s" and "multipleStep cfg s = Some s'"
  shows "detectorInv s'"
proof (cases "test False multipleRegex (serverOut s)")
  case False
  with assms show ?thesis by (simp add: multipleStep_def)
next
  case True
  with assms(2) obtain addresses where
    s': "s' = s\<lparr>serverDeferred := reject (Error (networkErrorMessage (EOL cfg) addresses)) (serverDeferred s),
               calls := calls s @ [ServerReject (Error (networkErrorMessage (EOL cfg) addresses))]\<rparr>"
    by (auto simp: multipleStep_def Let_def split: option.splits)
  show ?thesis
    by (rule inv_snoc_other[OF assms(1), where c = "ServerReject (Error (networkErrorMessage (EOL cfg) addresses))"])
       (simp_all add: s')
qed

lemma appStep_cases:
  assumes "appStep cfg m s = Inl s' \<or> appStep cfg m s = Inr s'"
  shows "s' = s \<or>
         (serverReady s \<and> s' = s\<lparr>appReady := True, calls := calls s @ [Uncaught TypeError]\<rparr>) \<or>
         (\<exists>v. serverReady s \<and>
              s' = s\<lparr>appReady := True, appDeferred := resolve v (appDeferred s),
                       calls := calls s @ [AppResolve v]\<rparr>)"
proof (cases "serverReady s \<and> \<not> appReady s \<and>
              (isServe cfg \<or> test True (getRegexToResolveAppDefer (cliArgs cfg)) (serverOut s))")
  case False
  then have "appStep cfg m s = Inr s" by (auto simp: appStep_def)
  with assms show ?thesis by simp
next
  case True
  then have sr: "serverReady s" by simp
  show ?thesis
  proof (cases m)
    case None
    with True have "appStep cfg m s = Inl (s\<lparr>appReady := True, calls := calls s @ [Uncaught TypeError]\<rparr>)"
      by (simp add: appStep_def)
    with assms sr show ?thesis by simp
  next
    case (Some mm)
    show ?thesis
    proof (cases "exec True externalRegex (serverOut s)")
      case None
      with True Some have "appStep cfg m s =
          Inr (s\<lparr>appReady := True, appDeferred := resolve [group mm 2] (appDeferred s),
                 calls := calls s @ [AppResolve [group mm 2]]\<rparr>)"
        by (simp add: appStep_def)
      with assms sr show ?thesis by auto
    next
      case (Some ext)
      note ext = this
      show ?thesis
      proof (cases "group ext 1")
        case None
        with True \<open>m = Some mm\<close> ext
        have "appStep cfg m s = Inl (s\<lparr>appReady := True, calls := calls s @ [Uncaught TypeError]\<rparr>)"
          by (simp add: appStep_def)
        with assms sr show ?thesis by simp
      next
        case (Some listed)
        with True \<open>m = Some mm\<close> ext
        have "appStep cfg m s =
          Inr (s\<lparr>appReady := True,
                 appDeferred := resolve (group mm 2 # map (\<lambda>x. Some (trim x)) (split '', '' listed)) (appDeferred s),
                 calls := calls s @ [AppResolve (group mm 2 # map (\<lambda>x. Some (trim x)) (split '', '' listed))]\<rparr>)"
          by (simp add: appStep_def Let_def)
        with assms sr show ?thesis by auto
      qed
    qed
  qed
qed

lemma appStep_inv:
  assumes "detectorInv s" and "appStep cfg m s = Inl s' \<or> appStep cfg m s = Inr s'"
  shows "detectorInv s'"
proof -
  from appStep_cases[OF assms(2)] consider
      (same) "s' = s"
    | (threw) "serverReady s" "s' = s\<lparr>appReady := True, calls := calls s @ [Uncaught TypeError]\<rparr>"
    | (resolved) v where "serverReady s"
        "s' = s\<lparr>appReady := True, appDeferred := resolve v (appDeferred s),
                 calls := calls s @ [AppResolve v]\<rparr>"
    by blast
  then show ?thesis
  proof cases
    case same
    with assms(1) show ?thesis by simp
  next
    case threw
    show ?thesis
      by (rule inv_snoc_other[OF assms(1), where c = "Uncaught TypeError"]) (simp_all add: threw)
  next
    case resolved
    show ?thesis
      by (rule inv_snoc_app[OF assms(1), where v = v])
         (auto simp: resolved dest: resolve_Resolved)
  qed
qed

lemma serverStep_inv:
  assumes "detectorInv s"
  shows "detectorInv (if \<not> serverReady (s\<lparr>serverOut := out\<rparr>) \<and> m \<noteq> None
                then (s\<lparr>serverOut := out\<rparr>)\<lparr>serverReady := True,
                        serverDeferred := resolve () (serverDeferred (s\<lparr>serverOut := out\<rparr>)),
                        calls := calls (s\<lparr>serverOut := out\<rparr>) @ [ServerResolve]\<rparr>
                else s\<lparr>serverOut := out\<rparr>)"
proof (cases "\<not> serverReady s \<and> m \<noteq> None")
  case False
  with assms show ?thesis by auto
next
  case True
  have "detectorInv (s\<lparr>serverOut := out, serverReady := True,
                        serverDeferred := resolve () (serverDeferred s),
                        calls := calls s @ [ServerResolve]\<rparr>)"
    by (rule inv_snoc_server[OF assms]) (simp_all add: True)
  with True show ?thesis by simp
qed

lemma serverOutputHandler_inv:
  assumes "detectorInv s" and "serverOutputHandler cfg s data = Some r"
  shows "detectorInv (case r of Inl s' \<Rightarrow> s' | Inr s' \<Rightarrow> s')"
proof -
  define m where "m = exec True SERVER_URL_RE (serverOut s @ data)"
  define s2 where "s2 = (if \<not> serverReady (s\<lparr>serverOut := serverOut s @ data\<rparr>) \<and> m \<noteq> None
                then (s\<lparr>serverOut := serverOut s @ data\<rparr>)\<lparr>serverReady := True,
                        serverDeferred := resolve () (serverDeferred (s\<lparr>serverOut := serverOut s @ data\<rparr>)),
                        calls := calls (s\<lparr>serverOut := serverOut s @ data\<rparr>) @ [ServerResolve]\<rparr>
                else s\<lparr>serverOut := serverOut s @ data\<rparr>)"
  have i2: "detectorInv s2" unfolding s2_def by (rule serverStep_inv[OF assms(1)])
  have h: "serverOutputHandler cfg s data =
      (case appStep cfg m s2 of
           Inl s3 \<Rightarrow> Some (Inl s3)
         | Inr s3 \<Rightarrow> map_option (\<lambda>s4. Inr (errorStep cfg s4)) (multipleStep cfg s3))"
    by (simp add: serverOutputHandler_def Let_def m_def s2_def)
  show ?thesis
  proof (cases "appStep cfg m s2")
    case (Inl s3)
    with h assms(2) have "r = Inl s3" by simp
    moreover have "detectorInv s3" using appStep_inv[OF i2, of cfg m s3] Inl by simp
    ultimately show ?thesis by simp
  next
    case (Inr s3)
    have i3: "detectorInv s3" using appStep_inv[OF i2, of cfg m s3] Inr by simp
    from h assms(2) Inr have "map_option (\<lambda>s4. Inr (errorStep cfg s4)) (multipleStep cfg s3) = Some r"
      by simp
    then obtain s4 where s4: "multipleStep cfg s3 = Some s4" "r = Inr (errorStep cfg s4)"
      by (cases "multipleStep cfg s3") auto
    have "detectorInv s4" using multipleStep_inv[OF i3 s4(1)] .
    then have "detectorInv (errorStep cfg s4)" by (rule errorStep_inv)
    with s4 show ?thesis by simp
  qed
qed

lemma onData_inv:
  assumes "detectorInv s" and "onData cfg s ch = Some s'"
  shows "detectorInv s'"
proof (cases ch)
  case (Stdout data)
  with assms(2) obtain r where r: "serverOutputHandler cfg s data = Some r"
      "s' = (case r of Inl x \<Rightarrow> x | Inr x \<Rightarrow> x)"
    by (auto simp: onData_def split: option.splits sum.splits)
  show ?thesis using serverOutputHandler_inv[OF assms(1) r(1)] r(2) by simp
next
  case (Stderr data)
  show ?thesis
  proof (cases "isIonic4 cfg")
    case False
    with Stderr assms(2) have "s' = serverErrorOutputHandler cfg s data" by (simp add: onData_def)
    then show ?thesis using serverErrorOutputHandler_inv[OF assms(1)] by simp
  next
    case True
    with Stderr assms(2) obtain r where r: "serverOutputHandler cfg s data = Some r"
      "s' = (case r of Inl x \<Rightarrow> x | Inr x \<Rightarrow> serverErrorOutputHandler cfg x data)"
      by (auto simp: onData_def split: option.splits sum.splits)
    from serverOutputHandler_inv[OF assms(1) r(1)]
    have i: "detectorInv (case r of Inl x \<Rightarrow> x | Inr x \<Rightarrow> x)" .
    show ?thesis
    proof (cases r)
      case (Inl x)
      with i r(2) show ?thesis by simp
    next
      case (Inr x)
      with i have "detectorInv x" by simp
      then have "detectorInv (serverErrorOutputHandler cfg x data)" by (rule serverErrorOutputHandler_inv)
      with Inr r(2) show ?thesis by simp
    qed
  qed
qed

lemma feed_inv:
  "detectorInv s \<Longrightarrow> feed cfg s chunks = Some s' \<Longrightarrow> detectorInv s'"
proof (induction chunks arbitrary: s)
  case Nil
  then show ?case by simp
next
  case (Cons ch chunks)
  from Cons.prems(2) obtain s1 where s1: "onData cfg s ch = Some s1" "feed cfg s1 chunks = Some s'"
    by (auto split: option.splits)
  have "detectorInv s1" using onData_inv[OF Cons.prems(1) s1(1)] .
  then show ?case using Cons.IH s1(2) by blast
qed

lemma newSession_inv: "detectorInv newSession"
  by (simp add: newSession_def)

lemma digit_shorter: "x \<in> set (ms digit ci st) \<Longrightarrow> length (fst x) < length (fst st)"
  by (cases "fst st") (auto simp: digit_def split: if_splits)

lemma addressRegex_match:
  assumes "st \<in> set (ms addressRegex ci (t, caps))"
  shows "length (fst st) < length t \<and>
         map_of (snd st) 1 = Some (take (length t - length (fst st)) t)"
proof -
  let ?body = "Seq (Rep 1 None digit) (Seq (Lit CHR '')'') (Seq (Lit CHR '' '') (Rep 0 None dot)))"
  from assms have "st \<in> set (ms (Grp 1 ?body) ci (t, caps))"
    by (simp only: addressRegex_def)
  from ms_Grp_elim[OF this] obtain y where y: "y \<in> set (ms ?body ci (t, caps))"
    "st = (fst y, (1, take (length t - length (fst y)) t) # snd y)"
    by (auto simp del: ms.simps)
  from ms_Seq_elim[OF y(1)] obtain x where x: "x \<in> set (ms (Rep 1 None digit) ci (t, caps))"
    "y \<in> set (ms (Seq (Lit CHR '')'') (Seq (Lit CHR '' '') (Rep 0 None dot))) ci x)"
    by blast
  have "length (fst x) < length t"
    using ms_Rep_pos_shorter[of digit ci 1 x "(t, caps)"] digit_shorter x(1) by simp
  moreover have "length (fst y) \<le> length (fst x)"
    using ms_suffix[OF x(2)] by (rule suffix_length_le)
  ultimately show ?thesis using y(2) by simp
qed

lemma networkAddresses_total: "\<exists>addresses. networkAddresses out = Some addresses"
proof -
  have "\<exists>found. execAll False addressRegex out = Some found"
    by (rule execAll_total) (use addressRegex_match in blast)
  then show ?thesis by (auto simp: networkAddresses_def)
qed

lemma multipleStep_total: "\<exists>s'. multipleStep cfg s = Some s'"
  using networkAddresses_total[of "serverOut s"] by (auto simp: multipleStep_def Let_def)

lemma serverOutputHandler_total: "\<exists>r. serverOutputHandler cfg s data = Some r"
proof -
  define m where "m = exec True SERVER_URL_RE (serverOut s @ data)"
  define s2 where "s2 = (if \<not> serverReady (s\<lparr>serverOut := serverOut s @ data\<rparr>) \<and> m \<noteq> None
                then (s\<lparr>serverOut := serverOut s @ data\<rparr>)\<lparr>serverReady := True,
                        serverDeferred := resolve () (serverDeferred (s\<lparr>serverOut := serverOut s @ data\<rparr>)),
                        calls := calls (s\<lparr>serverOut := serverOut s @ data\<rparr>) @ [ServerResolve]\<rparr>
                else s\<lparr>serverOut := serverOut s @ data\<rparr>)"
  have h: "serverOutputHandler cfg s data =
      (case appStep cfg m s2 of
           Inl s3 \<Rightarrow> Some (Inl s3)
         | Inr s3 \<Rightarrow> map_option (\<lambda>s4. Inr (errorStep cfg s4)) (multipleStep cfg s3))"
    by (simp add: serverOutputHandler_def Let_def m_def s2_def)
  show ?thesis
  proof (cases "appStep cfg m s2")
    case (Inl s3)
    with h show ?thesis by simp
  next
    case (Inr s3)
    with h multipleStep_total[of cfg s3] show ?thesis by auto
  qed
qed

lemma onData_total: "\<exists>s'. onData cfg s ch = Some s'"
proof (cases ch)
  case (Stdout data)
  with serverOutputHandler_total[of cfg s data] show ?thesis
    by (auto simp: onData_def split: sum.splits)
next
  case (Stderr data)
  with serverOutputHandler_total[of cfg s data] show ?thesis
    by (auto simp: onData_def split: sum.splits)
qed

lemma feed_total: "\<exists>s'. feed cfg s chunks = Some s'"
proof (induction chunks arbitrary: s)
  case Nil
  show ?case by simp
next
  case (Cons ch chunks)
  from onData_total[of cfg s ch] obtain s1 where "onData cfg s ch = Some s1" by blast
  with Cons[of s1] show ?case by simp
qed

section \<open>The readiness detector: when the two milestones are reached\<close>

lemma eolFree_SERVER_URL_RE: "eolFree SERVER_URL_RE"
  by (simp add: SERVER_URL_RE_def eolFree_lits dot_def)

lemma eolFree_multipleRegex: "eolFree multipleRegex"
  by (simp add: multipleRegex_def eolFree_lits)

lemma eolFree_errorRegex: "eolFree errorRegex"
  by (simp add: errorRegex_def eolFree_lits dot_def)

lemma eolFree_appReady: "eolFree (getRegexToResolveAppDefer args)"
  by (simp add: getRegexToResolveAppDefer_def Let_def iosDeviceAppReadyRegex_def
      iosSimulatorAppReadyRegex_def appReadyRegex_def eolFree_lits nonword_def)

lemma not_test_prefix: "eolFree r \<Longrightarrow> \<not> test ci r (s @ t) \<Longrightarrow> \<not> test ci r s"
  using test_append by blast

text \<open>The URL of a match of \<open>SERVER_URL_RE\<close>, and the list of an \<open>External:\<close> line, are defined.\<close>

lemma serverUrl_group:
  assumes "exec True SERVER_URL_RE out = Some m"
  shows "\<exists>u. group m 2 = Some u"
proof -
  from execFrom_Some[OF assms[unfolded exec_def]] obtain t and st :: mstate and rest where
    t: "ms SERVER_URL_RE True (t, []) = st # rest" "groups m = snd st" by blast
  then have "st \<in> set (ms SERVER_URL_RE True (t, []))" by simp
  then obtain a b c where "st \<in> set (ms (Grp 2 c) True b)"
    unfolding SERVER_URL_RE_def
    by (auto dest!: ms_Seq_elim simp del: ms.simps)
  from ms_Grp_elim[OF this] obtain y w where "st = (fst y, (2, w) # snd y)" by blast
  with t(2) show ?thesis by (simp add: group_def)
qed

lemma external_group:
  assumes "exec True externalRegex out = Some e"
  shows "\<exists>listed. group e 1 = Some listed"
proof -
  from execFrom_Some[OF assms[unfolded exec_def]] obtain t and st :: mstate and rest where
    t: "ms externalRegex True (t, []) = st # rest" "groups e = snd st" by blast
  then have "st \<in> set (ms externalRegex True (t, []))" by simp
  then obtain b c z where z: "z \<in> set (ms (Grp 1 c) True b)" "st \<in> set (ms Eol True z)"
    unfolding externalRegex_def
    by (auto dest!: ms_Seq_elim simp del: ms.simps)
  from z(2) have "st = z" by (auto split: list.splits if_splits)
  with ms_Grp_elim[OF z(1)] obtain y w where "st = (fst y, (1, w) # snd y)" by blast
  with t(2) show ?thesis by (simp add: group_def)
qed

lemma getServerErrorMessage_none:
  "\<not> test True errorRegex out \<Longrightarrow> getServerErrorMessage cfg out = None"
  by (simp add: getServerErrorMessage_def test_def)

lemma errorStep_quiet:
  "\<not> test True errorRegex (serverOut s) \<Longrightarrow> errorStep cfg s = s"
  by (simp add: errorStep_def getServerErrorMessage_none)

lemma errorStep_settled:
  assumes "appDeferred s = Resolved u"
  shows "appDeferred (errorStep cfg s) = Resolved u \<and> serverDeferred (errorStep cfg s) = serverDeferred s"
  using assms by (cases "getServerErrorMessage cfg (serverOut s)") (simp_all add: errorStep_def reject_def)

lemma serverErrorOutputHandler_settled:
  assumes "appDeferred s = Resolved u"
  shows "appDeferred (serverErrorOutputHandler cfg s data) = Resolved u \<and>
         serverDeferred (serverErrorOutputHandler cfg s data) = serverDeferred s"
  using assms
  by (cases "getServerErrorMessage cfg (serverErr s @ data)")
     (simp_all add: serverErrorOutputHandler_def reject_def)

lemma multipleStep_frame:
  "\<exists>s'. multipleStep cfg s = Some s' \<and> serverOut s' = serverOut s \<and> serverReady s' = serverReady s \<and>
        appReady s' = appReady s \<and> appDeferred s' = appDeferred s \<and>
        (serverDeferred s' = serverDeferred s \<or>
         (test False multipleRegex (serverOut s) \<and> serverDeferred s = Pending))"
proof (cases "test False multipleRegex (serverOut s)")
  case False
  then show ?thesis by (simp add: multipleStep_def)
next
  case True
  from networkAddresses_total[of "serverOut s"] obtain addresses where
    "networkAddresses (serverOut s) = Some addresses" by blast
  with True show ?thesis
    by (cases "serverDeferred s") (simp_all add: multipleStep_def Let_def reject_def)
qed

text \<open>
  A chunk that brings neither the text of appReady nor an error: \<open>appDeferred\<close> stays
  pending, and \<open>serverDeferred\<close> is resolved as soon as the URL is in the output, unless the
  prompt for a network interface came in an earlier chunk.
\<close>

lemma quiet_chunk:
  assumes p: "appDeferred s = Pending" "\<not> appReady s"
    and j: "serverReady s \<longrightarrow> serverDeferred s = Resolved ()"
           "\<not> serverReady s \<longrightarrow> serverDeferred s = Pending"
    and a: "\<not> isServe cfg"
           "\<not> test True (getRegexToResolveAppDefer (cliArgs cfg)) (serverOut s @ d)"
    and e: "\<not> test True errorRegex (serverOut s @ d)"
    and m: "serverReady s \<or> test True SERVER_URL_RE (serverOut s @ d) \<or>
            \<not> test False multipleRegex (serverOut s @ d)"
  shows "\<exists>s'. serverOutputHandler cfg s d = Some (Inr s') \<and> serverOut s' = serverOut s @ d \<and>
           appDeferred s' = Pending \<and> \<not> appReady s' \<and>
           (serverReady s' \<longrightarrow> serverDeferred s' = Resolved ()) \<and>
           (\<not> serverReady s' \<longrightarrow> serverDeferred s' = Pending) \<and>
           (serverReady s' \<longleftrightarrow> serverReady s \<or> test True SERVER_URL_RE (serverOut s @ d))"
proof -
  define m0 where "m0 = exec True SERVER_URL_RE (serverOut s @ d)"
  define s2 where "s2 = (if \<not> serverReady (s\<lparr>serverOut := serverOut s @ d\<rparr>) \<and> m0 \<noteq> None
                then (s\<lparr>serverOut := serverOut s @ d\<rparr>)\<lparr>serverReady := True,
                        serverDeferred := resolve () (serverDeferred (s\<lparr>serverOut := serverOut s @ d\<rparr>)),
                        calls := calls (s\<lparr>serverOut := serverOut s @ d\<rparr>) @ [ServerResolve]\<rparr>
                else s\<lparr>serverOut := serverOut s @ d\<rparr>)"
  have h: "serverOutputHandler cfg s d =
      (case appStep cfg m0 s2 of
           Inl s3 \<Rightarrow> Some (Inl s3)
         | Inr s3 \<Rightarrow> map_option (\<lambda>s4. Inr (errorStep cfg s4)) (multipleStep cfg s3))"
    by (simp add: serverOutputHandler_def Let_def m0_def s2_def)
  have o2: "serverOut s2 = serverOut s @ d" and ad2: "appDeferred s2 = Pending"
    and ar2: "\<not> appReady s2"
    using p by (simp_all add: s2_def)
  have sr2: "serverReady s2 \<longleftrightarrow> serverReady s \<or> test True SERVER_URL_RE (serverOut s @ d)"
    by (simp add: s2_def m0_def test_def)
  have sd2: "serverReady s2 \<longrightarrow> serverDeferred s2 = Resolved ()"
    "\<not> serverReady s2 \<longrightarrow> serverDeferred s2 = Pending"
    using j by (auto simp: s2_def resolve_def)
  have app: "appStep cfg m0 s2 = Inr s2"
    using a o2 by (simp add: appStep_def)
  from multipleStep_frame[of cfg s2] obtain s4 where
    s4: "multipleStep cfg s2 = Some s4" "serverOut s4 = serverOut s2" "serverReady s4 = serverReady s2"
      "appReady s4 = appReady s2" "appDeferred s4 = appDeferred s2"
      "serverDeferred s4 = serverDeferred s2 \<or>
         (test False multipleRegex (serverOut s2) \<and> serverDeferred s2 = Pending)"
    by blast
  have sd4: "serverDeferred s4 = serverDeferred s2"
  proof (cases "serverReady s2")
    case True
    with sd2 s4(6) show ?thesis by auto
  next
    case False
    with sr2 m have "\<not> test False multipleRegex (serverOut s @ d)" by simp
    with s4(6) o2 show ?thesis by simp
  qed
  have "errorStep cfg s4 = s4" by (rule errorStep_quiet) (simp add: s4(2) o2 e)
  with h app s4(1) have "serverOutputHandler cfg s d = Some (Inr s4)" by simp
  with s4 sd4 o2 ad2 ar2 sr2 sd2 show ?thesis by auto
qed

lemma quiet_chunks:
  assumes "appDeferred s = Pending" "\<not> appReady s"
    and "serverReady s \<longrightarrow> serverDeferred s = Resolved ()"
        "\<not> serverReady s \<longrightarrow> serverDeferred s = Pending"
    and "\<not> isServe cfg"
        "\<not> test True (getRegexToResolveAppDefer (cliArgs cfg)) (serverOut s @ concat ds)"
    and "\<not> test True errorRegex (serverOut s @ concat ds)"
    and "serverReady s \<or> \<not> test False multipleRegex (serverOut s @ concat ds)"
  shows "\<exists>s'. feed cfg s (map Stdout ds) = Some s' \<and> serverOut s' = serverOut s @ concat ds \<and>
           appDeferred s' = Pending \<and> \<not> appReady s' \<and>
           (serverReady s' \<longrightarrow> serverDeferred s' = Resolved ()) \<and>
           (\<not> serverReady s' \<longrightarrow> serverDeferred s' = Pending) \<and>
           (serverReady s \<longrightarrow> serverReady s')"
  using assms
proof (induction ds arbitrary: s)
  case Nil
  then show ?case by simp
next
  case (Cons d ds)
  have t: "serverOut s @ concat (d # ds) = (serverOut s @ d) @ concat ds" by simp
  have a1: "\<not> test True (getRegexToResolveAppDefer (cliArgs cfg)) (serverOut s @ d)"
    using Cons.prems(6) unfolding t by (rule not_test_prefix[OF eolFree_appReady])
  have e1: "\<not> test True errorRegex (serverOut s @ d)"
    using Cons.prems(7) unfolding t by (rule not_test_prefix[OF eolFree_errorRegex])
  have m1: "serverReady s \<or> test True SERVER_URL_RE (serverOut s @ d) \<or>
            \<not> test False multipleRegex (serverOut s @ d)"
    using Cons.prems(8) unfolding t using not_test_prefix[OF eolFree_multipleRegex] by blast
  from quiet_chunk[OF Cons.prems(1-5) a1 e1 m1] obtain s1 where
    s1: "serverOutputHandler cfg s d = Some (Inr s1)" "serverOut s1 = serverOut s @ d"
      "appDeferred s1 = Pending" "\<not> appReady s1"
      "serverReady s1 \<longrightarrow> serverDeferred s1 = Resolved ()"
      "\<not> serverReady s1 \<longrightarrow> serverDeferred s1 = Pending"
      "serverReady s1 \<longleftrightarrow> serverReady s \<or> test True SERVER_URL_RE (serverOut s @ d)"
    by blast
  have m2: "serverReady s1 \<or> \<not> test False multipleRegex (serverOut s1 @ concat ds)"
    using Cons.prems(8) s1(2,7) by auto
  have "\<exists>s'. feed cfg s1 (map Stdout ds) = Some s' \<and> serverOut s' = serverOut s1 @ concat ds \<and>
           appDeferred s' = Pending \<and> \<not> appReady s' \<and>
           (serverReady s' \<longrightarrow> serverDeferred s' = Resolved ()) \<and>
           (\<not> serverReady s' \<longrightarrow> serverDeferred s' = Pending) \<and>
           (serverReady s1 \<longrightarrow> serverReady s')"
    by (rule Cons.IH[OF s1(3,4,5,6) Cons.prems(5) _ _ m2])
       (use Cons.prems(6,7) s1(2) in simp_all)
  then obtain s' where s': "feed cfg s1 (map Stdout ds) = Some s'"
      "serverOut s' = serverOut s1 @ concat ds" "appDeferred s' = Pending" "\<not> appReady s'"
      "serverReady s' \<longrightarrow> serverDeferred s' = Resolved ()"
      "\<not> serverReady s' \<longrightarrow> serverDeferred s' = Pending"
      "serverReady s1 \<longrightarrow> serverReady s'"
    by blast
  have "feed cfg s (map Stdout (d # ds)) = Some s'"
    using s1(1) s'(1) by (simp add: onData_def)
  with s' s1(2,7) show ?case by auto
qed

text \<open>
  The chunk that brings the text of appReady, once \<open>serverDeferred\<close> is resolved and while
  \<open>appDeferred\<close> is pending: \<open>appDeferred\<close> is resolved with the URL read from the output
  accumulated so far, followed by the URLs of the \<open>External:\<close> line when there is one.
\<close>

lemma app_chunk:
  assumes p: "appDeferred s = Pending" "\<not> appReady s" "serverReady s" "serverDeferred s = Resolved ()"
    and a: "test True (getRegexToResolveAppDefer (cliArgs cfg)) (serverOut s @ d)"
    and m: "exec True SERVER_URL_RE (serverOut s @ d) = Some m"
  shows "\<exists>s' urls. serverOutputHandler cfg s d = Some (Inr s') \<and> serverDeferred s' = Resolved () \<and>
           appDeferred s' = Resolved (group m 2 # urls) \<and>
           (exec True externalRegex (serverOut s @ d) = None \<longrightarrow> urls = []) \<and>
           (\<forall>e. exec True externalRegex (serverOut s @ d) = Some e \<longrightarrow>
              (\<exists>listed. group e 1 = Some listed \<and>
                 urls = map (\<lambda>x. Some (trim x)) (split '', '' listed)))"
proof -
  define s2 where "s2 = s\<lparr>serverOut := serverOut s @ d\<rparr>"
  have h: "serverOutputHandler cfg s d =
      (case appStep cfg (Some m) s2 of
           Inl s3 \<Rightarrow> Some (Inl s3)
         | Inr s3 \<Rightarrow> map_option (\<lambda>s4. Inr (errorStep cfg s4)) (multipleStep cfg s3))"
    using p(3) by (simp add: serverOutputHandler_def Let_def m s2_def)
  have f2: "serverOut s2 = serverOut s @ d" "appDeferred s2 = Pending" "\<not> appReady s2"
    "serverReady s2" "serverDeferred s2 = Resolved ()"
    using p by (simp_all add: s2_def)
  have "\<exists>s3 urls. appStep cfg (Some m) s2 = Inr s3 \<and> serverDeferred s3 = Resolved () \<and>
      appDeferred s3 = Resolved (group m 2 # urls) \<and>
      (exec True externalRegex (serverOut s @ d) = None \<longrightarrow> urls = []) \<and>
      (\<forall>e. exec True externalRegex (serverOut s @ d) = Some e \<longrightarrow>
         (\<exists>listed. group e 1 = Some listed \<and> urls = map (\<lambda>x. Some (trim x)) (split '', '' listed)))"
  proof (cases "exec True externalRegex (serverOut s @ d)")
    case None
    with f2 a have "appStep cfg (Some m) s2 =
        Inr (s2\<lparr>appReady := True, appDeferred := resolve [group m 2] (appDeferred s2),
                calls := calls s2 @ [AppResolve [group m 2]]\<rparr>)"
      by (simp add: appStep_def)
    with f2 None show ?thesis by (simp add: resolve_def)
  next
    case (Some e)
    from external_group[OF Some] obtain listed where l: "group e 1 = Some listed" by blast
    with f2 a Some have "appStep cfg (Some m) s2 =
        Inr (s2\<lparr>appReady := True,
                appDeferred := resolve (group m 2 # map (\<lambda>x. Some (trim x)) (split '', '' listed))
                                 (appDeferred s2),
                calls := calls s2 @ [AppResolve (group m 2 # map (\<lambda>x. Some (trim x)) (split '', '' listed))]\<rparr>)"
      by (simp add: appStep_def Let_def)
    with f2 Some l show ?thesis by (simp add: resolve_def)
  qed
  then obtain s3 urls where s3: "appStep cfg (Some m) s2 = Inr s3" "serverDeferred s3 = Resolved ()"
      "appDeferred s3 = Resolved (group m 2 # urls)"
      "exec True externalRegex (serverOut s @ d) = None \<longrightarrow> urls = []"
      "\<forall>e. exec True externalRegex (serverOut s @ d) = Some e \<longrightarrow>
         (\<exists>listed. group e 1 = Some listed \<and> urls = map (\<lambda>x. Some (trim x)) (split '', '' listed))"
    by (elim exE conjE)
  from multipleStep_frame[of cfg s3] s3(2) obtain s4 where
    s4: "multipleStep cfg s3 = Some s4" "appDeferred s4 = appDeferred s3"
      "serverDeferred s4 = Resolved ()"
    by auto
  from errorStep_settled[of s4 "group m 2 # urls" cfg] s4 s3(3)
  have f5: "appDeferred (errorStep cfg s4) = Resolved (group m 2 # urls)"
    "serverDeferred (errorStep cfg s4) = Resolved ()" by simp_all
  from h s3(1) s4(1) have r: "serverOutputHandler cfg s d = Some (Inr (errorStep cfg s4))"
    by simp
  show ?thesis
    by (rule exI[of _ "errorStep cfg s4"], rule exI[of _ urls], intro conjI)
       (fact r f5 s3(4) s3(5))+
qed

text \<open>Once both promises are resolved, no chunk of either stream changes them.\<close>

lemma serverOutputHandler_settled:
  assumes "serverDeferred s = Resolved a" "appDeferred s = Resolved u"
  shows "\<exists>r. serverOutputHandler cfg s data = Some r \<and>
           serverDeferred (case r of Inl x \<Rightarrow> x | Inr x \<Rightarrow> x) = Resolved a \<and>
           appDeferred (case r of Inl x \<Rightarrow> x | Inr x \<Rightarrow> x) = Resolved u"
proof -
  define m where "m = exec True SERVER_URL_RE (serverOut s @ data)"
  define s2 where "s2 = (if \<not> serverReady (s\<lparr>serverOut := serverOut s @ data\<rparr>) \<and> m \<noteq> None
                then (s\<lparr>serverOut := serverOut s @ data\<rparr>)\<lparr>serverReady := True,
                        serverDeferred := resolve () (serverDeferred (s\<lparr>serverOut := serverOut s @ data\<rparr>)),
                        calls := calls (s\<lparr>serverOut := serverOut s @ data\<rparr>) @ [ServerResolve]\<rparr>
                else s\<lparr>serverOut := serverOut s @ data\<rparr>)"
  have h: "serverOutputHandler cfg s data =
      (case appStep cfg m s2 of
           Inl s3 \<Rightarrow> Some (Inl s3)
         | Inr s3 \<Rightarrow> map_option (\<lambda>s4. Inr (errorStep cfg s4)) (multipleStep cfg s3))"
    by (simp add: serverOutputHandler_def Let_def m_def s2_def)
  have f2: "serverDeferred s2 = Resolved a" "appDeferred s2 = Resolved u"
    using assms by (simp_all add: s2_def resolve_def)
  have keep: "serverDeferred s3 = Resolved a \<and> appDeferred s3 = Resolved u"
    if "appStep cfg m s2 = Inl s3 \<or> appStep cfg m s2 = Inr s3" for s3
    using appStep_cases[OF that] f2 by (auto simp: resolve_def)
  show ?thesis
  proof (cases "appStep cfg m s2")
    case (Inl s3)
    with h keep[of s3] show ?thesis by simp
  next
    case (Inr s3)
    with keep[of s3] have f3: "serverDeferred s3 = Resolved a" "appDeferred s3 = Resolved u" by simp_all
    from multipleStep_frame[of cfg s3] f3 obtain s4 where
      s4: "multipleStep cfg s3 = Some s4" "appDeferred s4 = Resolved u" "serverDeferred s4 = Resolved a"
      by auto
    from errorStep_settled[OF s4(2), of cfg] s4(3)
    have "appDeferred (errorStep cfg s4) = Resolved u" "serverDeferred (errorStep cfg s4) = Resolved a"
      by simp_all
    with h Inr s4(1) show ?thesis by simp
  qed
qed

lemma onData_settled:
  assumes "serverDeferred s = Resolved a" "appDeferred s = Resolved u"
  shows "\<exists>s'. onData cfg s ch = Some s' \<and> serverDeferred s' = Resolved a \<and> appDeferred s' = Resolved u"
proof -
  from serverOutputHandler_settled[OF assms] obtain r where
    r: "\<And>data. \<exists>r. serverOutputHandler cfg s data = Some r \<and>
           serverDeferred (case r of Inl x \<Rightarrow> x | Inr x \<Rightarrow> x) = Resolved a \<and>
           appDeferred (case r of Inl x \<Rightarrow> x | Inr x \<Rightarrow> x) = Resolved u"
    by blast
  show ?thesis
  proof (cases ch)
    case (Stdout data)
    from r[of data] obtain x where "serverOutputHandler cfg s data = Some x"
        "serverDeferred (case x of Inl x \<Rightarrow> x | Inr x \<Rightarrow> x) = Resolved a"
        "appDeferred (case x of Inl x \<Rightarrow> x | Inr x \<Rightarrow> x) = Resolved u" by blast
    with Stdout show ?thesis by (cases x) (simp_all add: onData_def)
  next
    case (Stderr data)
    show ?thesis
    proof (cases "isIonic4 cfg")
      case False
      with Stderr serverErrorOutputHandler_settled[OF assms(2), of cfg data] assms(1)
      show ?thesis by (simp add: onData_def)
    next
      case True
      from r[of data] obtain x where x: "serverOutputHandler cfg s data = Some x"
        "serverDeferred (case x of Inl x \<Rightarrow> x | Inr x \<Rightarrow> x) = Resolved a"
        "appDeferred (case x of Inl x \<Rightarrow> x | Inr x \<Rightarrow> x) = Resolved u" by blast
      show ?thesis
      proof (cases x)
        case (Inl y)
        with x True Stderr show ?thesis by (simp add: onData_def)
      next
        case (Inr y)
        with x have "serverDeferred y = Resolved a" "appDeferred y = Resolved u" by simp_all
        with serverErrorOutputHandler_settled[of y u cfg data]
        have "serverDeferred (serverErrorOutputHandler cfg y data) = Resolved a"
          "appDeferred (serverErrorOutputHandler cfg y data) = Resolved u" by simp_all
        with x(1) Inr True Stderr show ?thesis by (simp add: onData_def)
      qed
    qed
  qed
qed

lemma feed_settled:
  "serverDeferred s = Resolved a \<Longrightarrow> appDeferred s = Resolved u \<Longrightarrow>
   \<exists>s'. feed cfg s chunks = Some s' \<and> serverDeferred s' = Resolved a \<and> appDeferred s' = Resolved u"
proof (induction chunks arbitrary: s)
  case Nil
  then show ?case by simp
next
  case (Cons ch chunks)
  from onData_settled[OF Cons.prems, of cfg ch] obtain s1 where
    s1: "onData cfg s ch = Some s1" "serverDeferred s1 = Resolved a" "appDeferred s1 = Resolved u"
    by blast
  from Cons.IH[OF s1(2,3)] s1(1) show ?case by simp
qed

lemma feed_append:
  "feed cfg s (xs @ ys) = (case feed cfg s xs of None \<Rightarrow> None | Some s' \<Rightarrow> feed cfg s' ys)"
  by (induction xs arbitrary: s) (auto split: option.splits)
section \<open>The readiness detector: appReady after serverReady\<close>

text \<open>
  Claim C1, as amended. The appReady milestone is evaluated only once the flag
  \<open>serverReady\<close> is set: for every command line and every sequence of chunks of the two
  streams, the listeners return, every call of \<open>appDeferred.resolve\<close> comes after the call
  of \<open>serverDeferred.resolve\<close> and none before it, and a resolved appReady future carries
  the URL list of such a call. \<open>serverDeferred\<close> is resolved with no value; the URL is
  delivered with appReady. And the two milestones are reached: take a run other than
  \<open>serve\<close> and chunks of stdout in which the chunk \<open>d1\<close> completes a line that matches
  \<open>SERVER_URL_RE\<close>, with no prompt for a network interface in the output before that chunk,
  and in which a later chunk \<open>d2\<close> is the first to complete the text of appReady, with no
  \<open>error:\<close> in the output before that chunk. Then, whatever chunks follow on either stream,
  \<open>serverDeferred\<close> is resolved, \<open>appDeferred\<close> is resolved with the URL that
  \<open>SERVER_URL_RE\<close> finds in the output accumulated when \<open>d2\<close> arrives, followed by the URLs
  of the \<open>External:\<close> line if there is one, and \<open>serverDeferred.resolve\<close> is called before
  that \<open>appDeferred.resolve\<close>.
\<close>

theorem appReady_only_after_serverReady:
  "(\<exists>s. feed cfg newSession chunks = Some s \<and>
       (\<forall>pre urls post. calls s = pre @ AppResolve urls # post \<longrightarrow>
            ServerResolve \<in> set pre \<and> ServerResolve \<notin> set post) \<and>
       (\<forall>urls. appDeferred s = Resolved urls \<longrightarrow> AppResolve urls \<in> set (calls s))) \<and>
   (\<not> isServe cfg \<and>
    test True SERVER_URL_RE (concat earlier @ d1) \<and>
    \<not> test False multipleRegex (concat earlier) \<and>
    \<not> test True errorRegex (concat earlier @ d1 @ concat between) \<and>
    \<not> test True (getRegexToResolveAppDefer (cliArgs cfg)) (concat earlier @ d1 @ concat between) \<and>
    test True (getRegexToResolveAppDefer (cliArgs cfg)) (concat earlier @ d1 @ concat between @ d2) \<longrightarrow>
    (\<exists>s m u urls pre post.
        feed cfg newSession
          (map Stdout earlier @ Stdout d1 # map Stdout between @ Stdout d2 # later) = Some s \<and>
        serverDeferred s = Resolved () \<and>
        exec True SERVER_URL_RE (concat earlier @ d1 @ concat between @ d2) = Some m \<and>
        group m 2 = Some u \<and>
        appDeferred s = Resolved (Some u # urls) \<and>
        (exec True externalRegex (concat earlier @ d1 @ concat between @ d2) = None \<longrightarrow> urls = []) \<and>
        (\<forall>e. exec True externalRegex (concat earlier @ d1 @ concat between @ d2) = Some e \<longrightarrow>
           (\<exists>listed. group e 1 = Some listed \<and>
              urls = map (\<lambda>x. Some (trim x)) (split '', '' listed))) \<and>
        calls s = pre @ AppResolve (Some u # urls) # post \<and>
        ServerResolve \<in> set pre \<and> ServerResolve \<notin> set post))"
proof (intro conjI impI)
  from feed_total[of cfg newSession chunks] obtain s where s: "feed cfg newSession chunks = Some s"
    by blast
  from feed_inv[OF newSession_inv s] s
  show "\<exists>s. feed cfg newSession chunks = Some s \<and>
       (\<forall>pre urls post. calls s = pre @ AppResolve urls # post \<longrightarrow>
            ServerResolve \<in> set pre \<and> ServerResolve \<notin> set post) \<and>
       (\<forall>urls. appDeferred s = Resolved urls \<longrightarrow> AppResolve urls \<in> set (calls s))"
    by blast
next
  let ?app = "getRegexToResolveAppDefer (cliArgs cfg)"
  let ?o0 = "concat earlier"
  let ?o1 = "concat earlier @ d1"
  let ?o1' = "concat earlier @ d1 @ concat between"
  let ?o2 = "concat earlier @ d1 @ concat between @ d2"
  assume hyp: "\<not> isServe cfg \<and>
    test True SERVER_URL_RE (concat earlier @ d1) \<and>
    \<not> test False multipleRegex (concat earlier) \<and>
    \<not> test True errorRegex (concat earlier @ d1 @ concat between) \<and>
    \<not> test True (getRegexToResolveAppDefer (cliArgs cfg)) (concat earlier @ d1 @ concat between) \<and>
    test True (getRegexToResolveAppDefer (cliArgs cfg)) (concat earlier @ d1 @ concat between @ d2)"
  then have ns: "\<not> isServe cfg" and url: "test True SERVER_URL_RE ?o1"
    and np: "\<not> test False multipleRegex ?o0" and ne: "\<not> test True errorRegex ?o1'"
    and na: "\<not> test True ?app ?o1'" and ap: "test True ?app ?o2"
    by simp_all
  have ne1: "\<not> test True errorRegex ?o1"
    using not_test_prefix[OF eolFree_errorRegex, of True ?o1 "concat between"] ne by simp
  have ne0: "\<not> test True errorRegex ?o0"
    using not_test_prefix[OF eolFree_errorRegex, of True ?o0 "d1 @ concat between"] ne by simp
  have na1: "\<not> test True ?app ?o1"
    using not_test_prefix[OF eolFree_appReady, of True "cliArgs cfg" ?o1 "concat between"] na by simp
  have na0: "\<not> test True ?app ?o0"
    using not_test_prefix[OF eolFree_appReady, of True "cliArgs cfg" ?o0 "d1 @ concat between"] na
    by simp
  have "test True SERVER_URL_RE ?o2"
    using test_append[OF eolFree_SERVER_URL_RE url, of "concat between @ d2"] by simp
  then obtain m where m: "exec True SERVER_URL_RE ?o2 = Some m" by (auto simp: test_def)
  from serverUrl_group[OF m] obtain u where u: "group m 2 = Some u" by blast
  have "\<exists>s'. feed cfg newSession (map Stdout earlier) = Some s' \<and>
           serverOut s' = serverOut newSession @ concat earlier \<and>
           appDeferred s' = Pending \<and> \<not> appReady s' \<and>
           (serverReady s' \<longrightarrow> serverDeferred s' = Resolved ()) \<and>
           (\<not> serverReady s' \<longrightarrow> serverDeferred s' = Pending) \<and>
           (serverReady newSession \<longrightarrow> serverReady s')"
    by (rule quiet_chunks) (use ns na0 ne0 np in \<open>simp_all add: newSession_def\<close>)
  then obtain s0 where s0: "feed cfg newSession (map Stdout earlier) = Some s0"
      "serverOut s0 = ?o0" "appDeferred s0 = Pending" "\<not> appReady s0"
      "serverReady s0 \<longrightarrow> serverDeferred s0 = Resolved ()"
      "\<not> serverReady s0 \<longrightarrow> serverDeferred s0 = Pending"
    by (auto simp: newSession_def)
  have "\<exists>s'. serverOutputHandler cfg s0 d1 = Some (Inr s') \<and> serverOut s' = serverOut s0 @ d1 \<and>
           appDeferred s' = Pending \<and> \<not> appReady s' \<and>
           (serverReady s' \<longrightarrow> serverDeferred s' = Resolved ()) \<and>
           (\<not> serverReady s' \<longrightarrow> serverDeferred s' = Pending) \<and>
           (serverReady s' \<longleftrightarrow> serverReady s0 \<or> test True SERVER_URL_RE (serverOut s0 @ d1))"
    by (rule quiet_chunk[OF s0(3,4,5,6) ns]) (use na1 ne1 url s0(2) in simp_all)
  then obtain s1 where s1: "serverOutputHandler cfg s0 d1 = Some (Inr s1)"
      "serverOut s1 = ?o1" "appDeferred s1 = Pending" "\<not> appReady s1"
      "serverReady s1" "serverDeferred s1 = Resolved ()"
    using url s0(2) by auto
  have "\<exists>s'. feed cfg s1 (map Stdout between) = Some s' \<and>
           serverOut s' = serverOut s1 @ concat between \<and>
           appDeferred s' = Pending \<and> \<not> appReady s' \<and>
           (serverReady s' \<longrightarrow> serverDeferred s' = Resolved ()) \<and>
           (\<not> serverReady s' \<longrightarrow> serverDeferred s' = Pending) \<and>
           (serverReady s1 \<longrightarrow> serverReady s')"
    by (rule quiet_chunks[OF s1(3,4) _ _ ns]) (use na ne s1(2,5,6) in simp_all)
  then obtain s2 where s2: "feed cfg s1 (map Stdout between) = Some s2"
      "serverOut s2 = ?o1'" "appDeferred s2 = Pending" "\<not> appReady s2"
      "serverReady s2" "serverDeferred s2 = Resolved ()"
    using s1(2,5) by auto
  have "\<exists>s' urls. serverOutputHandler cfg s2 d2 = Some (Inr s') \<and> serverDeferred s' = Resolved () \<and>
           appDeferred s' = Resolved (group m 2 # urls) \<and>
           (exec True externalRegex (serverOut s2 @ d2) = None \<longrightarrow> urls = []) \<and>
           (\<forall>e. exec True externalRegex (serverOut s2 @ d2) = Some e \<longrightarrow>
              (\<exists>listed. group e 1 = Some listed \<and>
                 urls = map (\<lambda>x. Some (trim x)) (split '', '' listed)))"
    by (rule app_chunk[OF s2(3,4,5,6)]) (use ap m s2(2) in simp_all)
  then obtain s3 urls where s3: "serverOutputHandler cfg s2 d2 = Some (Inr s3)"
      "serverDeferred s3 = Resolved ()" "appDeferred s3 = Resolved (Some u # urls)"
      "exec True externalRegex ?o2 = None \<longrightarrow> urls = []"
      "\<forall>e. exec True externalRegex ?o2 = Some e \<longrightarrow>
         (\<exists>listed. group e 1 = Some listed \<and> urls = map (\<lambda>x. Some (trim x)) (split '', '' listed))"
    unfolding s2(2) u by (elim exE conjE) simp
  from feed_settled[OF s3(2,3), of cfg later] obtain s where
    s: "feed cfg s3 later = Some s" "serverDeferred s = Resolved ()"
       "appDeferred s = Resolved (Some u # urls)"
    by blast
  have fd: "feed cfg newSession
      (map Stdout earlier @ Stdout d1 # map Stdout between @ Stdout d2 # later) = Some s"
    using s0(1) s1(1) s2(1) s3(1) s(1) by (simp add: feed_append onData_def)
  from feed_inv[OF newSession_inv fd] s(3)
  have "AppResolve (Some u # urls) \<in> set (calls s)"
    and ord: "\<forall>pre v post. calls s = pre @ AppResolve v # post \<longrightarrow>
            ServerResolve \<in> set pre \<and> ServerResolve \<notin> set post"
    by simp_all
  then obtain pre post where c: "calls s = pre @ AppResolve (Some u # urls) # post"
    by (meson split_list)
  with ord have o: "ServerResolve \<in> set pre" "ServerResolve \<notin> set post" by simp_all
  show "\<exists>s m u urls pre post.
        feed cfg newSession
          (map Stdout earlier @ Stdout d1 # map Stdout between @ Stdout d2 # later) = Some s \<and>
        serverDeferred s = Resolved () \<and>
        exec True SERVER_URL_RE (concat earlier @ d1 @ concat between @ d2) = Some m \<and>
        group m 2 = Some u \<and>
        appDeferred s = Resolved (Some u # urls) \<and>
        (exec True externalRegex (concat earlier @ d1 @ concat between @ d2) = None \<longrightarrow> urls = []) \<and>
        (\<forall>e. exec True externalRegex (concat earlier @ d1 @ concat between @ d2) = Some e \<longrightarrow>
           (\<exists>listed. group e 1 = Some listed \<and>
              urls = map (\<lambda>x. Some (trim x)) (split '', '' listed))) \<and>
        calls s = pre @ AppResolve (Some u # urls) # post \<and>
        ServerResolve \<in> set pre \<and> ServerResolve \<notin> set post"
    by (rule exI[of _ s], rule exI[of _ m], rule exI[of _ u], rule exI[of _ urls],
        rule exI[of _ pre], rule exI[of _ post], intro conjI)
       (fact fd s(2) m u s(3) s3(4) s3(5) c o)+
qed

text \<open>
  Claim C1, as stated, fails. After the line \<open>Running dev server: http://localhost:8100\<close>,
  a line \<open>error: boom\<close> makes the handler reject \<open>appDeferred\<close>; the chunk
  \<open>launch success\<close> that follows finds the promise settled, and the appReady future stays
  rejected.
\<close>

theorem launch_success_after_error_rejected:
  "map_option appDeferred
     (feed \<lparr>cliArgs = [''run'', ''android'', ''--device'', ''--verbose'', ''--livereload''],
            isIonic4 = False, EOL = [CHR 0x0A]\<rparr> newSession
        [Stdout (''Running dev server: http://localhost:8100'' @ [CHR 0x0A]),
         Stdout (''error: boom'' @ [CHR 0x0A]),
         Stdout (''launch success'' @ [CHR 0x0A])]) =
   Some (Rejected (Error (''Error in the Ionic live reload server:'' @ [CHR 0x0A] @ ''error: boom'')))"
  by code_simp

lemma dev_server_then_launch_success:
  "feed \<lparr>cliArgs = [''run'', ''android'', ''--device'', ''--verbose'', ''--livereload''],
          isIonic4 = False, EOL = [CHR 0x0A]\<rparr> newSession
     [Stdout (''Running dev server: http://localhost:8100'' @ [CHR 0x0A]),
      Stdout (''launch success'' @ [CHR 0x0A])] =
   Some \<lparr>serverOut = ''Running dev server: http://localhost:8100'' @ [CHR 0x0A] @ ''launch success'' @ [CHR 0x0A],
         serverErr = [], serverReady = True, appReady = True,
         serverDeferred = Resolved (),
         appDeferred = Resolved [Some ''http://localhost:8100''],
         calls = [ServerResolve, AppResolve [Some ''http://localhost:8100'']]\<rparr>"
  by code_simp

text \<open>
  The URL is read from the accumulated output when \<open>appDeferred\<close> is resolved. When the
  chunk with the URL does not end its line, the text of the next chunk runs into the URL.
\<close>

lemma url_runs_into_next_chunk:
  "map_option appDeferred
     (feed \<lparr>cliArgs = [''run'', ''android'', ''--device'', ''--verbose'', ''--livereload''],
            isIonic4 = False, EOL = [CHR 0x0A]\<rparr> newSession
        [Stdout ''Running dev server: http://localhost:8100'', Stdout ''launch success'']) =
   Some (Resolved [Some ''http://localhost:8100launch''])"
  by code_simp

text \<open>
  A prompt for a network interface that comes after the line with the URL finds
  \<open>serverDeferred\<close> resolved, and changes nothing: both milestones are reached.
\<close>

lemma prompt_after_url_harmless:
  "map_option (\<lambda>s. (serverDeferred s, appDeferred s))
     (feed \<lparr>cliArgs = [''run'', ''android'', ''--device'', ''--verbose'', ''--livereload''],
            isIonic4 = False, EOL = [CHR 0x0A]\<rparr> newSession
        [Stdout (''Running dev server: http://localhost:8100'' @ [CHR 0x0A]),
         Stdout (''Multiple network interfaces detected'' @ [CHR 0x0A]),
         Stdout (''launch success'' @ [CHR 0x0A])]) =
   Some (Resolved (), Resolved [Some ''http://localhost:8100''])"
  by code_simp

text \<open>
  The order proved above is the order of the calls. When the prompt comes before the line
  with the URL, \<open>serverDeferred\<close> is rejected first, the later call of
  \<open>serverDeferred.resolve\<close> has no effect, and \<open>appDeferred\<close> is resolved all the same.
\<close>

lemma prompt_before_url_rejects_serverReady:
  "map_option (\<lambda>s. (serverDeferred s, appDeferred s, calls s))
     (feed \<lparr>cliArgs = [''run'', ''android'', ''--device'', ''--verbose'', ''--livereload''],
            isIonic4 = False, EOL = [CHR 0x0A]\<rparr> newSession
        [Stdout (''Multiple network interfaces detected'' @ [CHR 0x0A]),
         Stdout (''Running dev server: http://localhost:8100'' @ [CHR 0x0A] @ ''launch success'' @ [CHR 0x0A])]) =
   Some (Rejected (Error multipleInterfacesMessage), Resolved [Some ''http://localhost:8100''],
         [ServerReject (Error multipleInterfacesMessage), ServerResolve,
          AppResolve [Some ''http://localhost:8100''], ServerReject (Error multipleInterfacesMessage)])"
  by code_simp

lemma example_tests:
  "\<not> isServe \<lparr>cliArgs = [''run'', ''android'', ''--device'', ''--verbose'', ''--livereload''],
              isIonic4 = False, EOL = [CHR 0x0A]\<rparr> \<and>
   test True SERVER_URL_RE (concat [] @ ''Running dev server: http://localhost:8100'' @ [CHR 0x0A]) \<and>
   \<not> test False multipleRegex (concat []) \<and>
   \<not> test True errorRegex (concat [] @ (''Running dev server: http://localhost:8100'' @ [CHR 0x0A]) @ concat []) \<and>
   \<not> test True (getRegexToResolveAppDefer
        (cliArgs \<lparr>cliArgs = [''run'', ''android'', ''--device'', ''--verbose'', ''--livereload''],
              isIonic4 = False, EOL = [CHR 0x0A]\<rparr>))
      (concat [] @ (''Running dev server: http://localhost:8100'' @ [CHR 0x0A]) @ concat []) \<and>
   test True (getRegexToResolveAppDefer
        (cliArgs \<lparr>cliArgs = [''run'', ''android'', ''--device'', ''--verbose'', ''--livereload''],
              isIonic4 = False, EOL = [CHR 0x0A]\<rparr>))
      (concat [] @ (''Running dev server: http://localhost:8100'' @ [CHR 0x0A]) @ concat [] @
       ''launch success'' @ [CHR 0x0A])"
  by code_simp

lemma example_url:
  "map_option (\<lambda>m. group m 2)
     (exec True SERVER_URL_RE
        (concat [] @ (''Running dev server: http://localhost:8100'' @ [CHR 0x0A]) @ concat [] @
         ''launch success'' @ [CHR 0x0A])) = Some (Some ''http://localhost:8100'') \<and>
   exec True externalRegex
        (concat [] @ (''Running dev server: http://localhost:8100'' @ [CHR 0x0A]) @ concat [] @
         ''launch success'' @ [CHR 0x0A]) = None"
  by code_simp

text \<open>
  Claim C1, witness: the two lines \<open>Running dev server: http://localhost:8100\<close> and
  \<open>launch success\<close> of an Android run, one chunk each. \<open>serverDeferred\<close> is resolved,
  \<open>appDeferred\<close> is resolved with the URL, and the call that resolves \<open>serverDeferred\<close>
  comes first.
\<close>

theorem appReady_only_after_serverReady_witness:
  "\<exists>s pre post.
      feed \<lparr>cliArgs = [''run'', ''android'', ''--device'', ''--verbose'', ''--livereload''],
              isIonic4 = False, EOL = [CHR 0x0A]\<rparr> newSession
         [Stdout (''Running dev server: http://localhost:8100'' @ [CHR 0x0A]),
          Stdout (''launch success'' @ [CHR 0x0A])] = Some s \<and>
      serverDeferred s = Resolved () \<and>
      appDeferred s = Resolved [Some ''http://localhost:8100''] \<and>
      calls s = pre @ AppResolve [Some ''http://localhost:8100''] # post \<and>
      ServerResolve \<in> set pre \<and> ServerResolve \<notin> set post"
proof -
  let ?cfg = "\<lparr>cliArgs = [''run'', ''android'', ''--device'', ''--verbose'', ''--livereload''],
              isIonic4 = False, EOL = [CHR 0x0A]\<rparr>"
  let ?d1 = "''Running dev server: http://localhost:8100'' @ [CHR 0x0A]"
  let ?d2 = "''launch success'' @ [CHR 0x0A]"
  from appReady_only_after_serverReady[where cfg = ?cfg and earlier = "[]" and ?d1.0 = ?d1
      and between = "[]" and ?d2.0 = ?d2 and later = "[]", THEN conjunct2, rule_format,
      OF example_tests]
  obtain s m u urls pre post where
    f: "feed ?cfg newSession (map Stdout [] @ Stdout ?d1 # map Stdout [] @ Stdout ?d2 # []) = Some s"
    and sd: "serverDeferred s = Resolved ()"
    and m: "exec True SERVER_URL_RE (concat [] @ ?d1 @ concat [] @ ?d2) = Some m"
    and u: "group m 2 = Some u"
    and ad: "appDeferred s = Resolved (Some u # urls)"
    and x: "exec True externalRegex (concat [] @ ?d1 @ concat [] @ ?d2) = None \<longrightarrow> urls = []"
    and c: "calls s = pre @ AppResolve (Some u # urls) # post"
    and o: "ServerResolve \<in> set pre" "ServerResolve \<notin> set post"
    by (elim exE conjE)
  from example_url m u have u': "u = ''http://localhost:8100''"
    by (simp only: option.map option.inject)
  from example_url x have urls: "urls = []" by (simp only: simp_thms)
  from f have f': "feed ?cfg newSession [Stdout ?d1, Stdout ?d2] = Some s"
    by (simp only: list.map append_Nil)
  from ad u' urls have ad': "appDeferred s = Resolved [Some ''http://localhost:8100'']"
    by (simp only:)
  from c u' urls have c': "calls s = pre @ AppResolve [Some ''http://localhost:8100''] # post"
    by (simp only:)
  show ?thesis
    by (rule exI[of _ s], rule exI[of _ pre], rule exI[of _ post], intro conjI)
       (fact f' sd ad' c' o)+
qed
section \<open>launchAndroid: the command line of a live-reload launch\<close>

lemma toLower_device: "toLowerCase ''device'' = ''device''"
  by code_simp

text \<open>
  Claim C2. A launch for target \<open>"device"\<close> with \<open>ionicLiveReload\<close> set, on an
  Ionic-Angular project, with no \<open>runArguments\<close> on the request and none found in the
  project (each \<open>undefined\<close> or empty), builds exactly the command line
  \<open>["run", "android", "--device", "--verbose", "--livereload"]\<close>, logs nothing, and hands
  the command line to \<open>startIonicDevServer\<close>.
\<close>

theorem launchAndroid_livereload_device:
  assumes "target launchArgs = Some ''device''"
    and "ionicLiveReload launchArgs"
    and "isIonicAngular"
    and "runArguments launchArgs = None \<or> runArguments launchArgs = Some []"
    and "runArgs = None \<or> runArgs = Some []"
  shows "launchAndroid launchArgs isIonicAngular runArgs =
         Inr ([], StartIonicDevServer [''run'', ''android'', ''--device'', ''--verbose'', ''--livereload''])"
proof -
  have a: "\<not> nonEmpty (runArguments launchArgs)" using assms(4) by (auto simp: nonEmpty_def)
  have b: "\<not> nonEmpty runArgs" using assms(5) by (auto simp: nonEmpty_def)
  show ?thesis
    using assms(1,2,3) a b by (simp add: launchAndroid_def toLower_device)
qed

text \<open>Claim C2, witness: such a request, with an empty list of project arguments.\<close>

theorem launchAndroid_livereload_device_witness:
  "launchAndroid \<lparr>platform = Some ''android'', target = Some ''device'', port = None,
       cwd = Some ''/work/app'', attachTimeout = None, timeout = None, runArguments = None,
       ionicLiveReload = True\<rparr> True (Some []) =
   Inr ([], StartIonicDevServer [''run'', ''android'', ''--device'', ''--verbose'', ''--livereload''])"
  by (rule launchAndroid_livereload_device) simp_all

section \<open>attachAndroid: the scan of the socket table\<close>

lemma checkSocketRow_selected:
  assumes "8 \<le> length (fieldsOf line)"
    and "at (fieldsOf line) flagsIdx = Some ''00010000''"
    and "at (fieldsOf line) stIdx = Some ''01''"
    and "at (fieldsOf line) pathIdx = Some (''@'' @ name)"
    and "name = ''webview_devtools_remote_'' @ templ pid \<or> name = appPackageName @ ''_devtools_remote''"
  shows "checkSocketRow flagsIdx stIdx pathIdx pid appPackageName line = Return name"
proof -
  have "sublist ''_devtools_remote'' (''@'' @ name)"
  proof -
    from assms(5) have "sublist ''_devtools_remote'' name"
    proof
      assume "name = ''webview_devtools_remote_'' @ templ pid"
      then have "name = ''webview'' @ ''_devtools_remote'' @ (''_'' @ templ pid)" by simp
      then show ?thesis by (simp only: sublist_appendI)
    next
      assume "name = appPackageName @ ''_devtools_remote''"
      then show ?thesis by (simp only: sublist_append_leftI)
    qed
    then show ?thesis by (simp only: sublist_append) blast
  qed
  with assms show ?thesis
    by (auto simp: checkSocketRow_def Let_def)
qed

lemma checkSocketRow_rejected:
  assumes "at (fieldsOf line) flagsIdx \<noteq> Some ''00010000'' \<or>
           at (fieldsOf line) stIdx \<noteq> Some ''01'' \<or>
           (\<exists>p. at (fieldsOf line) pathIdx = Some p \<and>
                (take 1 p \<noteq> ''@'' \<or> \<not> sublist ''_devtools_remote'' p))"
  shows "checkSocketRow flagsIdx stIdx pathIdx pid appPackageName line = Continue"
  using assms by (auto simp: checkSocketRow_def Let_def)

lemma scanSockets_skip:
  "\<forall>l \<in> set skipped. checkSocketRow flagsIdx stIdx pathIdx pid appPackageName l = Continue \<Longrightarrow>
   scanSockets flagsIdx stIdx pathIdx pid appPackageName (skipped @ rest) =
   scanSockets flagsIdx stIdx pathIdx pid appPackageName rest"
  by (induction skipped) simp_all

text \<open>
  Claim C3. In the scan of the socket table, with the columns \<open>Flags\<close>, \<open>St\<close> and \<open>Path\<close>
  at the positions read from the header: a row with flags \<open>00010000\<close>, state \<open>01\<close> and the
  path \<open>@webview_devtools_remote_<pid>\<close> or \<open>@<packageName>_devtools_remote\<close> (a row of
  that table has its eight fields) is returned, without the \<open>@\<close>, when the rows before it
  were passed over; and a row whose flags are not \<open>00010000\<close>, whose state is not \<open>01\<close>,
  whose path does not begin with \<open>@\<close> or does not contain \<open>_devtools_remote\<close> is passed
  over, whatever its other fields: the scan goes on with the next row.
\<close>

theorem devtools_socket_row_selection:
  "(8 \<le> length (fieldsOf line) \<and>
    at (fieldsOf line) flagsIdx = Some ''00010000'' \<and>
    at (fieldsOf line) stIdx = Some ''01'' \<and>
    at (fieldsOf line) pathIdx = Some (''@'' @ name) \<and>
    (name = ''webview_devtools_remote_'' @ templ pid \<or> name = appPackageName @ ''_devtools_remote'') \<and>
    (\<forall>l \<in> set skipped. checkSocketRow flagsIdx stIdx pathIdx pid appPackageName l = Continue)
    \<longrightarrow> scanSockets flagsIdx stIdx pathIdx pid appPackageName (skipped @ line # rest) = Inr (Some name))
   \<and>
   (at (fieldsOf line) flagsIdx \<noteq> Some ''00010000'' \<or>
    at (fieldsOf line) stIdx \<noteq> Some ''01'' \<or>
    (\<exists>p. at (fieldsOf line) pathIdx = Some p \<and>
         (take 1 p \<noteq> ''@'' \<or> \<not> sublist ''_devtools_remote'' p))
    \<longrightarrow> checkSocketRow flagsIdx stIdx pathIdx pid appPackageName line = Continue \<and>
        scanSockets flagsIdx stIdx pathIdx pid appPackageName (line # rest) =
        scanSockets flagsIdx stIdx pathIdx pid appPackageName rest)"
proof (intro conjI impI)
  assume a: "8 \<le> length (fieldsOf line) \<and>
    at (fieldsOf line) flagsIdx = Some ''00010000'' \<and>
    at (fieldsOf line) stIdx = Some ''01'' \<and>
    at (fieldsOf line) pathIdx = Some (''@'' @ name) \<and>
    (name = ''webview_devtools_remote_'' @ templ pid \<or> name = appPackageName @ ''_devtools_remote'') \<and>
    (\<forall>l \<in> set skipped. checkSocketRow flagsIdx stIdx pathIdx pid appPackageName l = Continue)"
  then have "checkSocketRow flagsIdx stIdx pathIdx pid appPackageName line = Return name"
    by (intro checkSocketRow_selected) simp_all
  moreover from a have "scanSockets flagsIdx stIdx pathIdx pid appPackageName (skipped @ line # rest) =
      scanSockets flagsIdx stIdx pathIdx pid appPackageName (line # rest)"
    by (intro scanSockets_skip) simp
  ultimately show "scanSockets flagsIdx stIdx pathIdx pid appPackageName (skipped @ line # rest) = Inr (Some name)"
    by simp
next
  assume r: "at (fieldsOf line) flagsIdx \<noteq> Some ''00010000'' \<or>
    at (fieldsOf line) stIdx \<noteq> Some ''01'' \<or>
    (\<exists>p. at (fieldsOf line) pathIdx = Some p \<and>
         (take 1 p \<noteq> ''@'' \<or> \<not> sublist ''_devtools_remote'' p))"
  then show c: "checkSocketRow flagsIdx stIdx pathIdx pid appPackageName line = Continue"
    by (rule checkSocketRow_rejected)
  then show "scanSockets flagsIdx stIdx pathIdx pid appPackageName (line # rest) =
        scanSockets flagsIdx stIdx pathIdx pid appPackageName rest"
    by simp
qed

lemma socket_row_fields:
  "fieldsOf ''0000000000000000: 00000002 00000000 00010000 0001 01 5001 @webview_devtools_remote_1234'' =
   [''0000000000000000:'', ''00000002'', ''00000000'', ''00010000'', ''0001'', ''01'', ''5001'',
    ''@webview_devtools_remote_1234'']"
  by code_simp

lemma other_row_fields:
  "fieldsOf ''0000000000000000: 00000002 00000000 00000000 0001 01 5000 @webview_devtools_remote_1234'' =
   [''0000000000000000:'', ''00000002'', ''00000000'', ''00000000'', ''0001'', ''01'', ''5000'',
    ''@webview_devtools_remote_1234'']"
  by code_simp

lemma proc_net_unix_lines:
  "split [CHR 0x0A]
     (''Num       RefCount Protocol Flags    Type St Inode Path'' @ [CHR 0x0A] @
      ''0000000000000000: 00000002 00000000 00000000 0001 01 5000 @webview_devtools_remote_1234'' @ [CHR 0x0A] @
      ''0000000000000000: 00000002 00000000 00010000 0001 01 5001 @webview_devtools_remote_1234'') =
   [''Num       RefCount Protocol Flags    Type St Inode Path'',
    ''0000000000000000: 00000002 00000000 00000000 0001 01 5000 @webview_devtools_remote_1234'',
    ''0000000000000000: 00000002 00000000 00010000 0001 01 5001 @webview_devtools_remote_1234'']"
  by code_simp

lemma proc_net_unix_header:
  "fieldsOf ''Num       RefCount Protocol Flags    Type St Inode Path'' =
   [''Num'', ''RefCount'', ''Protocol'', ''Flags'', ''Type'', ''St'', ''Inode'', ''Path'']"
  by code_simp

text \<open>
  Claim C3, witness: the table of the spec's example under the header of \<open>/proc/net/unix\<close>.
  The row with flags \<open>00000000\<close> is passed over, whatever its path; the row with flags
  \<open>00010000\<close>, state \<open>01\<close> and the path of process \<open>1234\<close> is returned without its \<open>@\<close>.
\<close>

theorem devtools_socket_row_selection_witness:
  "findAbstractName (Some ''1234'') ''io.cordova.hello''
     (''Num       RefCount Protocol Flags    Type St Inode Path'' @ [CHR 0x0A] @
      ''0000000000000000: 00000002 00000000 00000000 0001 01 5000 @webview_devtools_remote_1234'' @ [CHR 0x0A] @
      ''0000000000000000: 00000002 00000000 00010000 0001 01 5001 @webview_devtools_remote_1234'') =
   Inr (Some ''webview_devtools_remote_1234'')"
proof -
  let ?r0 = "''0000000000000000: 00000002 00000000 00000000 0001 01 5000 @webview_devtools_remote_1234''"
  let ?r1 = "''0000000000000000: 00000002 00000000 00010000 0001 01 5001 @webview_devtools_remote_1234''"
  have "at (fieldsOf ?r0) 3 \<noteq> Some ''00010000''"
    by (simp add: other_row_fields at_def)
  with devtools_socket_row_selection[of ?r0 3 5 7 _ "Some ''1234''" "''io.cordova.hello''" "[]" "[?r1]"]
  have skip: "scanSockets 3 5 7 (Some ''1234'') ''io.cordova.hello'' [?r0, ?r1] =
      scanSockets 3 5 7 (Some ''1234'') ''io.cordova.hello'' [?r1]"
    by blast
  have "8 \<le> length (fieldsOf ?r1) \<and>
    at (fieldsOf ?r1) 3 = Some ''00010000'' \<and>
    at (fieldsOf ?r1) 5 = Some ''01'' \<and>
    at (fieldsOf ?r1) 7 = Some (''@'' @ ''webview_devtools_remote_1234'') \<and>
    (''webview_devtools_remote_1234'' = ''webview_devtools_remote_'' @ templ (Some ''1234'') \<or>
     ''webview_devtools_remote_1234'' = ''io.cordova.hello'' @ ''_devtools_remote'') \<and>
    (\<forall>l \<in> set []. checkSocketRow 3 5 7 (Some ''1234'') ''io.cordova.hello'' l = Continue)"
    by (simp add: socket_row_fields at_def templ_def)
  with devtools_socket_row_selection[of ?r1 3 5 7 "''webview_devtools_remote_1234''" "Some ''1234''" "''io.cordova.hello''" "[]" "[]"]
  have "scanSockets 3 5 7 (Some ''1234'') ''io.cordova.hello'' ([] @ [?r1]) = Inr (Some ''webview_devtools_remote_1234'')"
    by blast
  with skip have res: "scanSockets 3 5 7 (Some ''1234'') ''io.cordova.hello'' [?r0, ?r1] =
      Inr (Some ''webview_devtools_remote_1234'')" by (simp only: append_Nil)
  have idx: "indexOf (fieldsOf ''Num       RefCount Protocol Flags    Type St Inode Path'') ''Flags'' = 3"
    "indexOf (fieldsOf ''Num       RefCount Protocol Flags    Type St Inode Path'') ''St'' = 5"
    "indexOf (fieldsOf ''Num       RefCount Protocol Flags    Type St Inode Path'') ''Path'' = 7"
    by (simp_all add: proc_net_unix_header indexOf_def)
  show ?thesis
    unfolding findAbstractName_def proc_net_unix_lines
    by (simp only: list.case Let_def idx res)
qed
section \<open>attachAndroid: the target device\<close>

text \<open>
  Claim C4, as amended. The lines of \<open>adb devices\<close> are filtered by the kind of target
  (\<open>device\<close>: a serial, a tab and \<open>device\<close>, without \<open>emulator\<close>; \<open>emulator\<close>: both
  \<open>device\<close> and \<open>emulator\<close>; any other target: the lines that match it as a regular
  expression). The first line that survives, with \<open>\tdevice\<close> and \<open>\r\<close> removed, is the
  target device, however many lines survive with it; the attempt fails with
  \<open>Unable to find target <target>\<close> when no line survives, or when that first result is
  empty.
\<close>

theorem adbDevices_first_survivor:
  assumes "targetFilter tgt targetRe = Some accepts"
  shows "(filter accepts (split [CHR 0x0A] devicesOutput) = [] \<longrightarrow>
            adbDevicesResult tgt targetRe (Inr devicesOutput) =
            Inl (Error (''Unable to find target '' @ tgt))) \<and>
         (\<forall>line others. filter accepts (split [CHR 0x0A] devicesOutput) = line # others \<and>
              cleanLine line \<noteq> [] \<longrightarrow>
            adbDevicesResult tgt targetRe (Inr devicesOutput) = Inr (cleanLine line)) \<and>
         (\<forall>line others. filter accepts (split [CHR 0x0A] devicesOutput) = line # others \<and>
              cleanLine line = [] \<longrightarrow>
            adbDevicesResult tgt targetRe (Inr devicesOutput) =
            Inl (Error (''Unable to find target '' @ tgt)))"
  using assms by (simp add: adbDevicesResult_def)

text \<open>
  Claim C4, as stated, fails. With two devices attached and the target \<open>device\<close>, two
  lines survive the filter; the attempt does not fail, it goes on with the first serial.
\<close>

theorem two_devices_no_failure:
  "adbDevicesResult ''device'' None
     (Inr (''List of devices attached'' @ [CHR 0x0A] @
           ''ABC123'' @ [CHR 0x09] @ ''device'' @ [CHR 0x0A] @
           ''DEF456'' @ [CHR 0x09] @ ''device'' @ [CHR 0x0A])) = Inr ''ABC123''"
  by code_simp

lemma two_devices_survive:
  "filter deviceFilter (split [CHR 0x0A]
      (''List of devices attached'' @ [CHR 0x0A] @
       ''ABC123'' @ [CHR 0x09] @ ''device'' @ [CHR 0x0A] @
       ''DEF456'' @ [CHR 0x09] @ ''device'' @ [CHR 0x0A])) =
   (''ABC123'' @ [CHR 0x09] @ ''device'') # [''DEF456'' @ [CHR 0x09] @ ''device'']"
  by code_simp

lemma cleanLine_device: "cleanLine (''ABC123'' @ [CHR 0x09] @ ''device'') = ''ABC123''"
  by code_simp

lemma targetFilter_device: "targetFilter ''device'' None = Some deviceFilter"
  by (simp add: targetFilter_def toLower_device)

text \<open>Claim C4, witness of the amended statement: the same two devices.\<close>

theorem adbDevices_first_survivor_witness:
  "adbDevicesResult ''device'' None
     (Inr (''List of devices attached'' @ [CHR 0x0A] @
           ''ABC123'' @ [CHR 0x09] @ ''device'' @ [CHR 0x0A] @
           ''DEF456'' @ [CHR 0x09] @ ''device'' @ [CHR 0x0A])) =
   Inr (cleanLine (''ABC123'' @ [CHR 0x09] @ ''device''))"
proof -
  have ne: "cleanLine (''ABC123'' @ [CHR 0x09] @ ''device'') \<noteq> []"
    by (simp only: cleanLine_device) simp
  show ?thesis
    by (rule adbDevices_first_survivor[OF targetFilter_device, THEN conjunct2, THEN conjunct1,
          rule_format, OF conjI[OF two_devices_survive ne]])
qed
section \<open>iOS: validation of the target\<close>

lemma indexFrom_neg: "i \<ge> 0 \<Longrightarrow> (indexFrom i xs x \<ge> 0) = (x \<in> set xs)"
  by (induction xs arbitrary: i) auto

lemma indexOf_nonneg: "(indexOf xs x \<ge> 0) = (x \<in> set xs)"
  by (simp add: indexOf_def indexFrom_neg)

text \<open>
  Claim C5, as amended. \<open>checkIfTargetIsiOSSimulator\<close> rejects the alias \<open>emulator\<close> with the
  invalid-target error, whatever the list command answers, and the callers pass it that alias
  for a target that is \<open>emulator\<close> in any letter case; it rejects with the same error a
  target that is one of the simulator identifiers read from \<open>emulate ios --list\<close>; and it
  accepts every other target, such as \<open>device\<close> or the identifier of a device, once the
  list command has succeeded.
\<close>

theorem ios_simulator_targets_rejected:
  "checkIfTargetIsiOSSimulator ''emulator'' listing = Inl (Error invalidTargetMessage) \<and>
   (toLowerCase t = ''emulator'' \<longrightarrow>
      checkIfTargetIsiOSSimulator (iosTarget t) listing = Inl (Error invalidTargetMessage)) \<and>
   (Some tgt \<in> set (emulators listed) \<longrightarrow>
      checkIfTargetIsiOSSimulator tgt (Inr (listed, errors)) = Inl (Error invalidTargetMessage)) \<and>
   (tgt \<noteq> ''emulator'' \<and> Some tgt \<notin> set (emulators listed) \<longrightarrow>
      checkIfTargetIsiOSSimulator tgt (Inr (listed, errors)) = Inr ())"
  by (simp add: checkIfTargetIsiOSSimulator_def indexOf_nonneg iosTarget_def)

text \<open>
  Claim C5, as stated, fails. \<open>iPhone-8\<close> is a simulator identifier of the list, and the
  check rejects it: the function throws \<open>simulatorTargetIsNotSupported\<close> when the target is
  found in the list.
\<close>

theorem listed_simulator_rejected:
  "checkIfTargetIsiOSSimulator ''iPhone-8''
     (Inr (''Available iOS Simulators:'' @ [CHR 0x0A, CHR 0x09] @ ''iPhone-8, 13.3'' @
           [CHR 0x0A, CHR 0x09] @ ''iPhone-11-Pro, 13.3'' @ [CHR 0x0A], [])) =
   Inl (Error invalidTargetMessage)"
  by code_simp

lemma listed_simulators:
  "emulators (''Available iOS Simulators:'' @ [CHR 0x0A, CHR 0x09] @ ''iPhone-8, 13.3'' @
           [CHR 0x0A, CHR 0x09] @ ''iPhone-11-Pro, 13.3'' @ [CHR 0x0A]) =
   [None, Some ''iPhone-8'', Some ''iPhone-11-Pro'', None]"
  by code_simp

text \<open>
  Claim C5, witness of the amended statement: with that list, the simulator
  \<open>iPhone-11-Pro\<close> is rejected and the target \<open>device\<close> is accepted.
\<close>

theorem ios_simulator_targets_rejected_witness:
  "checkIfTargetIsiOSSimulator ''iPhone-11-Pro''
     (Inr (''Available iOS Simulators:'' @ [CHR 0x0A, CHR 0x09] @ ''iPhone-8, 13.3'' @
           [CHR 0x0A, CHR 0x09] @ ''iPhone-11-Pro, 13.3'' @ [CHR 0x0A], [])) =
   Inl (Error invalidTargetMessage) \<and>
   checkIfTargetIsiOSSimulator ''device''
     (Inr (''Available iOS Simulators:'' @ [CHR 0x0A, CHR 0x09] @ ''iPhone-8, 13.3'' @
           [CHR 0x0A, CHR 0x09] @ ''iPhone-11-Pro, 13.3'' @ [CHR 0x0A], [])) = Inr ()"
proof -
  have a: "Some ''iPhone-11-Pro'' \<in> set (emulators (''Available iOS Simulators:'' @ [CHR 0x0A, CHR 0x09] @ ''iPhone-8, 13.3'' @
           [CHR 0x0A, CHR 0x09] @ ''iPhone-11-Pro, 13.3'' @ [CHR 0x0A]))"
    unfolding listed_simulators by simp
  have b: "''device'' \<noteq> ''emulator'' \<and> Some ''device'' \<notin> set (emulators (''Available iOS Simulators:'' @ [CHR 0x0A, CHR 0x09] @ ''iPhone-8, 13.3'' @
           [CHR 0x0A, CHR 0x09] @ ''iPhone-11-Pro, 13.3'' @ [CHR 0x0A]))"
    unfolding listed_simulators by simp
  show ?thesis
    by (rule conjI[OF
          ios_simulator_targets_rejected[THEN conjunct2, THEN conjunct2, THEN conjunct1, rule_format, OF a]
          ios_simulator_targets_rejected[THEN conjunct2, THEN conjunct2, THEN conjunct2, rule_format, OF b]])
qed
section \<open>attachIos: the webviews of the application\<close>

lemma stringIndexFrom_range: "0 \<le> i \<Longrightarrow> stringIndexFrom i s x = -1 \<or> i \<le> stringIndexFrom i s x"
proof (induction s arbitrary: i)
  case Nil
  then show ?case by simp
next
  case (Cons c cs)
  from Cons.IH[of "i + 1"] Cons.prems show ?case by auto
qed

lemma stringIndexFrom_start: "0 \<le> i \<Longrightarrow> (stringIndexFrom i s x = i) = prefix x s"
proof (cases s)
  case Nil
  assume "0 \<le> i"
  with Nil show ?thesis by auto
next
  case (Cons c cs)
  assume i: "0 \<le> i"
  from stringIndexFrom_range[of "i + 1" cs x] i
  have "stringIndexFrom (i + 1) cs x \<noteq> i" by auto
  with Cons show ?thesis by simp
qed

lemma stringIndexFrom_found: "0 \<le> i \<Longrightarrow> (stringIndexFrom i s x \<noteq> -1) = sublist x s"
proof (induction s arbitrary: i)
  case Nil
  then show ?case by auto
next
  case (Cons c cs)
  from Cons.IH[of "i + 1"] Cons.prems show ?case by (auto simp: sublist_Cons_right)
qed

lemma stringIndexOf_zero: "(stringIndexOf s x = 0) = prefix x s"
  by (simp add: stringIndexOf_def stringIndexFrom_start)

lemma stringIndexOf_found: "(stringIndexOf s x \<noteq> -1) = sublist x s"
  by (simp add: stringIndexOf_def stringIndexFrom_found)

lemma indexFrom_range: "0 \<le> i \<Longrightarrow> indexFrom i xs x = -1 \<or> i \<le> indexFrom i xs x"
proof (induction xs arbitrary: i)
  case Nil
  then show ?case by simp
next
  case (Cons y ys)
  from Cons.IH[of "i + 1"] Cons.prems show ?case by auto
qed

lemma indexOf_zero: "(indexOf xs x = 0) = (take 1 xs = [x])"
proof (cases xs)
  case Nil
  then show ?thesis by (simp add: indexOf_def)
next
  case (Cons y ys)
  from indexFrom_range[of 1 ys x] have "indexFrom 1 ys x \<noteq> 0" by auto
  with Cons show ?thesis by (simp add: indexOf_def)
qed

lemma indexFrom_found: "0 \<le> i \<Longrightarrow> (indexFrom i xs x \<noteq> -1) = (x \<in> set xs)"
proof (induction xs arbitrary: i)
  case Nil
  then show ?case by simp
next
  case (Cons y ys)
  from Cons.IH[of "i + 1"] Cons.prems show ?case by auto
qed

lemma indexOf_found: "(indexOf xs x \<noteq> -1) = (x \<in> set xs)"
  by (simp add: indexOf_def indexFrom_found)

lemma some_defined:
  "\<forall>x \<in> set xs. p x \<noteq> None \<Longrightarrow> some p xs = Some (list_ex (\<lambda>x. p x = Some True) xs)"
  by (induction xs) auto

lemma isTargetWebview_liveReload:
  assumes "urls = [] \<or> url e \<noteq> JOther"
  shows "isTargetWebview (Some urls) packagePath e =
     Some (case url e of
             JString u \<Rightarrow> list_ex (\<lambda>x. prefix x u) urls
           | JArray vs \<Rightarrow> list_ex (\<lambda>x. take 1 vs = [JString x]) urls
           | JOther \<Rightarrow> False)"
proof (cases "urls = []")
  case True
  then show ?thesis by (simp add: isTargetWebview_def split: json.splits)
next
  case False
  with assms have d: "url e \<noteq> JOther" by simp
  then have "\<forall>x \<in> set urls. map_option (\<lambda>i. i = 0) (urlIndexOf (url e) x) \<noteq> None"
    by (auto simp: urlIndexOf_def split: json.splits)
  from some_defined[OF this] d show ?thesis
    by (cases "url e")
       (simp_all add: isTargetWebview_def urlIndexOf_def stringIndexOf_zero indexOf_zero)
qed

lemma isTargetWebview_packagePath:
  assumes "url e \<noteq> JOther"
  shows "isTargetWebview None packagePath e =
     Some (case url e of
             JString u \<Rightarrow> sublist (encodeURIComponent packagePath) u
           | JArray vs \<Rightarrow> JString (encodeURIComponent packagePath) \<in> set vs
           | JOther \<Rightarrow> False)"
  using assms
  by (cases "url e")
     (simp_all add: isTargetWebview_def urlIndexOf_def stringIndexOf_found indexOf_found)

lemma filterWebviews_defined:
  "\<forall>e \<in> set es. p e = Some (q e) \<Longrightarrow> filterWebviews p es = Some (filter q es)"
  by (induction es) auto

lemma retryFrom_exhausted:
  "\<forall>k. i \<le> k \<and> k < i + n \<longrightarrow> \<not> (case probe k of Inr r \<Rightarrow> accept r | Inl e \<Rightarrow> False) \<Longrightarrow>
   retryFrom probe accept delayMs msg n wait i =
     (Inl (Error msg), i + n, take (n - 1) (wait # replicate n delayMs))"
proof (induction n arbitrary: i wait)
  case 0
  show ?case by simp
next
  case (Suc n)
  from Suc.prems have f: "\<not> (case probe i of Inr r \<Rightarrow> accept r | Inl e \<Rightarrow> False)" by simp
  show ?case
  proof (cases "n = 0")
    case True
    with f show ?thesis by simp
  next
    case False
    have "retryFrom probe accept delayMs msg n delayMs (Suc i) =
        (Inl (Error msg), Suc i + n, take (n - 1) (delayMs # replicate n delayMs))"
      by (rule Suc.IH) (use Suc.prems in auto)
    moreover from False have "take n (wait # replicate (Suc n) delayMs) =
        wait # take (n - 1) (delayMs # replicate n delayMs)"
      by (cases n) simp_all
    ultimately show ?thesis using f False by simp
  qed
qed

lemma retryFrom_first_success:
  "\<forall>j. i \<le> j \<and> j < k \<longrightarrow> \<not> (case probe j of Inr r \<Rightarrow> accept r | Inl e \<Rightarrow> False) \<Longrightarrow>
   i \<le> k \<Longrightarrow> k < i + n \<Longrightarrow> probe k = Inr v \<Longrightarrow> accept v \<Longrightarrow>
   retryFrom probe accept delayMs msg n wait i =
     (Inr v, Suc k, take (k - i) (wait # replicate n delayMs))"
proof (induction n arbitrary: i wait)
  case 0
  then show ?case by simp
next
  case (Suc n)
  show ?case
  proof (cases "i = k")
    case True
    with Suc.prems show ?thesis by simp
  next
    case False
    with Suc.prems have f: "\<not> (case probe i of Inr r \<Rightarrow> accept r | Inl e \<Rightarrow> False)" by simp
    from False Suc.prems have n: "n \<noteq> 0" by simp
    have "retryFrom probe accept delayMs msg n delayMs (Suc i) =
        (Inr v, Suc k, take (k - Suc i) (delayMs # replicate n delayMs))"
      by (rule Suc.IH) (use Suc.prems False in auto)
    moreover from False Suc.prems have "k - i = Suc (k - Suc i)" by simp
    then have "take (k - i) (wait # replicate (Suc n) delayMs) =
        wait # take (k - Suc i) (delayMs # replicate n delayMs)"
      by simp
    ultimately show ?thesis using f n by simp
  qed
qed

lemma retryFrom_calls_waits:
  "0 < n \<Longrightarrow>
   i < fst (snd (retryFrom probe accept delayMs msg n wait i)) \<and>
   fst (snd (retryFrom probe accept delayMs msg n wait i)) \<le> i + n \<and>
   snd (snd (retryFrom probe accept delayMs msg n wait i)) =
     take (fst (snd (retryFrom probe accept delayMs msg n wait i)) - Suc i)
       (wait # replicate n delayMs)"
proof (induction n arbitrary: i wait)
  case 0
  then show ?case by simp
next
  case (Suc n)
  show ?case
  proof (cases "(case probe i of Inr r \<Rightarrow> accept r | Inl e \<Rightarrow> False) \<or> n = 0")
    case True
    then show ?thesis by auto
  next
    case False
    then have n: "0 < n" and f: "\<not> (case probe i of Inr r \<Rightarrow> accept r | Inl e \<Rightarrow> False)" by auto
    obtain outcome c waits where
      r: "retryFrom probe accept delayMs msg n delayMs (Suc i) = (outcome, c, waits)"
      by (cases "retryFrom probe accept delayMs msg n delayMs (Suc i)") auto
    from Suc.IH[OF n, of "Suc i" delayMs] r
    have c: "Suc i < c" "c \<le> Suc i + n"
      and w: "waits = take (c - Suc (Suc i)) (delayMs # replicate n delayMs)" by auto
    from c have "c - Suc i = Suc (c - Suc (Suc i))" by simp
    then have "take (c - Suc i) (wait # replicate (Suc n) delayMs) =
        wait # take (c - Suc (Suc i)) (delayMs # replicate n delayMs)"
      by simp
    with f n r c w show ?thesis by simp
  qed
qed

lemma take_four: "m \<le> 4 \<Longrightarrow> take m (w # replicate 5 d) = take m [w, d, d, d]"
proof -
  assume "m \<le> 4"
  then have "m = 0 \<or> m = 1 \<or> m = 2 \<or> m = 3 \<or> m = 4" by arith
  moreover have "replicate 5 d = [d, d, d, d, d]" by (simp add: numeral_eq_Suc)
  ultimately show ?thesis by (auto simp: numeral_eq_Suc)
qed

lemma webviewsProbe_nonempty:
  "snd (webviewsProbe urls pkg p response) = Inr v \<Longrightarrow> length (relevantViews v) > 0"
  by (auto simp: webviewsProbe_def split: sum.splits option.splits if_splits)

text \<open>
  Claim C6. In \<open>findWebViews\<close> the list of webviews is filtered by prefix against
  \<open>ionicDevServerUrls\<close> when that property is set (live reload), and otherwise by
  containment of the URL-encoded package path (for a \<open>url\<close> that is an array, \<open>indexOf\<close>
  compares its elements instead). When the filter keeps entries, they are the result; when
  it keeps none and the list has exactly one entry, that entry is the result and a warning
  is logged; when it keeps none and the list has not exactly one entry, the attempt fails
  with \<open>Unable to find target app\<close>. The attempt is made at most 5 times: the first attempt
  that succeeds gives the result, and after 5 failed attempts the step fails. Between two
  attempts the runner waits, and the delay does not grow: the first wait is the initial
  delay \<open>1\<close> of the call, and every later wait is the same \<open>attachArgs.attachDelay\<close>, which
  is 1000 when the request sets none.
\<close>

theorem findWebViews_selection:
  "(urls = [] \<or> (\<forall>e \<in> set webviewsList. url e \<noteq> JOther) \<longrightarrow>
      filterWebviews (isTargetWebview (Some urls) packagePath) webviewsList =
      Some (filter (\<lambda>e. case url e of
                          JString u \<Rightarrow> list_ex (\<lambda>x. prefix x u) urls
                        | JArray vs \<Rightarrow> list_ex (\<lambda>x. take 1 vs = [JString x]) urls
                        | JOther \<Rightarrow> False)
              webviewsList)) \<and>
   ((\<forall>e \<in> set webviewsList. url e \<noteq> JOther) \<longrightarrow>
      filterWebviews (isTargetWebview None packagePath) webviewsList =
      Some (filter (\<lambda>e. case url e of
                          JString u \<Rightarrow> sublist (encodeURIComponent packagePath) u
                        | JArray vs \<Rightarrow> JString (encodeURIComponent packagePath) \<in> set vs
                        | JOther \<Rightarrow> False)
              webviewsList)) \<and>
   (filterWebviews (isTargetWebview ionicDevServerUrls packagePath) webviewsList = Some found \<longrightarrow>
      webviewsProbe ionicDevServerUrls packagePath devicePort (Inr (Some webviewsList)) =
        (if found \<noteq> [] then ([], Inr \<lparr>relevantViews = found, targetPort = devicePort\<rparr>)
         else if length webviewsList = 1
         then ([fallbackWarning], Inr \<lparr>relevantViews = webviewsList, targetPort = devicePort\<rparr>)
         else ([], Inl (Error ''Unable to find target app'')))) \<and>
   (delay = (case attachDelay of None \<Rightarrow> 1000 | Some d \<Rightarrow> if d = 0 then 1000 else d) \<longrightarrow>
      fst (snd (findWebViews ionicDevServerUrls packagePath devicePort attachDelay responses)) \<le> 5 \<and>
      snd (snd (findWebViews ionicDevServerUrls packagePath devicePort attachDelay responses)) =
        take (fst (snd (findWebViews ionicDevServerUrls packagePath devicePort attachDelay responses)) - 1)
          [1, delay, delay, delay] \<and>
      (\<forall>k v. k < 5 \<and>
           (\<forall>j < k. \<exists>e. snd (webviewsProbe ionicDevServerUrls packagePath devicePort (responses j)) = Inl e) \<and>
           snd (webviewsProbe ionicDevServerUrls packagePath devicePort (responses k)) = Inr v \<longrightarrow>
         findWebViews ionicDevServerUrls packagePath devicePort attachDelay responses =
           (Inr v, Suc k, take k [1, delay, delay, delay])) \<and>
      ((\<forall>k < 5. \<exists>e. snd (webviewsProbe ionicDevServerUrls packagePath devicePort (responses k)) = Inl e) \<longrightarrow>
         findWebViews ionicDevServerUrls packagePath devicePort attachDelay responses =
           (Inl (Error ''Unable to find webview''), 5, [1, delay, delay, delay])))"
proof (intro conjI impI allI)
  assume a: "urls = [] \<or> (\<forall>e \<in> set webviewsList. url e \<noteq> JOther)"
  show "filterWebviews (isTargetWebview (Some urls) packagePath) webviewsList =
      Some (filter (\<lambda>e. case url e of
                          JString u \<Rightarrow> list_ex (\<lambda>x. prefix x u) urls
                        | JArray vs \<Rightarrow> list_ex (\<lambda>x. take 1 vs = [JString x]) urls
                        | JOther \<Rightarrow> False)
              webviewsList)"
    by (rule filterWebviews_defined) (use a isTargetWebview_liveReload in blast)
next
  assume a: "\<forall>e \<in> set webviewsList. url e \<noteq> JOther"
  show "filterWebviews (isTargetWebview None packagePath) webviewsList =
      Some (filter (\<lambda>e. case url e of
                          JString u \<Rightarrow> sublist (encodeURIComponent packagePath) u
                        | JArray vs \<Rightarrow> JString (encodeURIComponent packagePath) \<in> set vs
                        | JOther \<Rightarrow> False)
              webviewsList)"
    by (rule filterWebviews_defined) (use a isTargetWebview_packagePath in blast)
next
  assume "filterWebviews (isTargetWebview ionicDevServerUrls packagePath) webviewsList = Some found"
  then show "webviewsProbe ionicDevServerUrls packagePath devicePort (Inr (Some webviewsList)) =
        (if found \<noteq> [] then ([], Inr \<lparr>relevantViews = found, targetPort = devicePort\<rparr>)
         else if length webviewsList = 1
         then ([fallbackWarning], Inr \<lparr>relevantViews = webviewsList, targetPort = devicePort\<rparr>)
         else ([], Inl (Error ''Unable to find target app'')))"
    by (simp add: webviewsProbe_def)
next
  let ?probe = "\<lambda>i. snd (webviewsProbe ionicDevServerUrls packagePath devicePort (responses i))"
  let ?accept = "\<lambda>result. length (relevantViews result) > 0"
  assume d: "delay = (case attachDelay of None \<Rightarrow> 1000 | Some d \<Rightarrow> if d = 0 then 1000 else d)"
  then have fw: "findWebViews ionicDevServerUrls packagePath devicePort attachDelay responses =
      retryFrom ?probe ?accept delay ''Unable to find webview'' 5 1 0"
    by (simp add: findWebViews_def retryAsync_def)
  have r: "replicate 5 delay = [delay, delay, delay, delay, delay]"
    by (simp add: numeral_eq_Suc)
  from retryFrom_calls_waits[of 5 0 ?probe ?accept delay "''Unable to find webview''" 1]
  have c: "fst (snd (retryFrom ?probe ?accept delay ''Unable to find webview'' 5 1 0)) \<le> 5"
    and w: "snd (snd (retryFrom ?probe ?accept delay ''Unable to find webview'' 5 1 0)) =
        take (fst (snd (retryFrom ?probe ?accept delay ''Unable to find webview'' 5 1 0)) - 1)
          (1 # replicate 5 delay)"
    by simp_all
  from c show "fst (snd (findWebViews ionicDevServerUrls packagePath devicePort attachDelay responses)) \<le> 5"
    by (simp only: fw)
  from c have "fst (snd (retryFrom ?probe ?accept delay ''Unable to find webview'' 5 1 0)) - 1 \<le> 4"
    by simp
  then have "take (fst (snd (retryFrom ?probe ?accept delay ''Unable to find webview'' 5 1 0)) - 1)
          (1 # replicate 5 delay) =
        take (fst (snd (retryFrom ?probe ?accept delay ''Unable to find webview'' 5 1 0)) - 1)
          [1, delay, delay, delay]"
    by (rule take_four)
  with w show "snd (snd (findWebViews ionicDevServerUrls packagePath devicePort attachDelay responses)) =
        take (fst (snd (findWebViews ionicDevServerUrls packagePath devicePort attachDelay responses)) - 1)
          [1, delay, delay, delay]"
    by (simp only: fw)
  {
    fix k v
    assume a: "k < 5 \<and>
        (\<forall>j < k. \<exists>e. ?probe j = Inl e) \<and> ?probe k = Inr v"
    then have acc: "length (relevantViews v) > 0" using webviewsProbe_nonempty by blast
    have "retryFrom ?probe ?accept delay ''Unable to find webview'' 5 1 0 =
        (Inr v, Suc k, take (k - 0) (1 # replicate 5 delay))"
      by (rule retryFrom_first_success) (use a acc in auto)
    moreover from a have "take k (1 # replicate 5 delay) = take k [1, delay, delay, delay]"
      by (intro take_four) simp
    ultimately show "findWebViews ionicDevServerUrls packagePath devicePort attachDelay responses =
        (Inr v, Suc k, take k [1, delay, delay, delay])"
      by (simp add: fw)
  }
  {
    assume a: "\<forall>k < 5. \<exists>e. ?probe k = Inl e"
    have "retryFrom ?probe ?accept delay ''Unable to find webview'' 5 1 0 =
        (Inl (Error ''Unable to find webview''), 0 + 5, take (5 - 1) (1 # replicate 5 delay))"
      by (rule retryFrom_exhausted) (use a in auto)
    then show "findWebViews ionicDevServerUrls packagePath devicePort attachDelay responses =
        (Inl (Error ''Unable to find webview''), 5, [1, delay, delay, delay])"
      unfolding r by (simp add: fw)
  }
qed

lemma example_filter:
  "filter (\<lambda>e. case url e of
                  JString u \<Rightarrow> list_ex (\<lambda>x. prefix x u) [''http://10.0.0.5:8100'']
                | JArray vs \<Rightarrow> list_ex (\<lambda>x. take 1 vs = [JString x]) [''http://10.0.0.5:8100'']
                | JOther \<Rightarrow> False)
     [\<lparr>url = JString ''http://10.0.0.5:8100/app''\<rparr>, \<lparr>url = JString ''http://example.com''\<rparr>] =
   [\<lparr>url = JString ''http://10.0.0.5:8100/app''\<rparr>]"
  by code_simp

text \<open>
  A \<open>url\<close> that is an array is not refused: \<open>indexOf\<close> of the array finds the dev-server
  URL as its first element, and the entry is kept.
\<close>

lemma array_url_kept:
  "isTargetWebview (Some [''http://10.0.0.5:8100'']) ''HelloCordova.app''
     \<lparr>url = JArray [JString ''http://10.0.0.5:8100'']\<rparr> = Some True \<and>
   isTargetWebview (Some [''http://10.0.0.5:8100'']) ''HelloCordova.app'' \<lparr>url = JOther\<rparr> = None"
  by code_simp

text \<open>
  Claim C6, witness: with \<open>ionicDevServerUrls = ["http://10.0.0.5:8100"]\<close> and the webviews
  \<open>http://10.0.0.5:8100/app\<close> and \<open>http://example.com\<close>, only the first is selected. Here
  the inspector answers at the third request, and the request sets no \<open>attachDelay\<close>: three
  requests are made, after waits of 1 and of 1000 milliseconds.
\<close>

theorem findWebViews_selection_witness:
  "findWebViews (Some [''http://10.0.0.5:8100'']) ''HelloCordova.app'' 9223 None
     (\<lambda>i. if i < 2 then Inl (Error ''Unable to communicate with target'')
          else Inr (Some [\<lparr>url = JString ''http://10.0.0.5:8100/app''\<rparr>,
                          \<lparr>url = JString ''http://example.com''\<rparr>])) =
   (Inr \<lparr>relevantViews = [\<lparr>url = JString ''http://10.0.0.5:8100/app''\<rparr>], targetPort = 9223\<rparr>,
    3, [1, 1000])"
proof -
  let ?list = "[\<lparr>url = JString ''http://10.0.0.5:8100/app''\<rparr>, \<lparr>url = JString ''http://example.com''\<rparr>]"
  let ?responses = "\<lambda>i :: nat. if i < 2 then Inl (Error ''Unable to communicate with target'')
          else Inr (Some ?list)"
  let ?v = "\<lparr>relevantViews = [\<lparr>url = JString ''http://10.0.0.5:8100/app''\<rparr>], targetPort = 9223\<rparr>"
  note sel = findWebViews_selection[of "[''http://10.0.0.5:8100'']" ?list "''HelloCordova.app''"
      "Some [''http://10.0.0.5:8100'']" "[\<lparr>url = JString ''http://10.0.0.5:8100/app''\<rparr>]" 9223
      1000 None ?responses]
  have d: "[''http://10.0.0.5:8100''] = [] \<or> (\<forall>e \<in> set ?list. url e \<noteq> JOther)" by simp
  have f: "filterWebviews (isTargetWebview (Some [''http://10.0.0.5:8100'']) ''HelloCordova.app'') ?list =
      Some [\<lparr>url = JString ''http://10.0.0.5:8100/app''\<rparr>]"
    using sel[THEN conjunct1, rule_format, OF d] by (simp only: example_filter)
  have p: "webviewsProbe (Some [''http://10.0.0.5:8100'']) ''HelloCordova.app'' 9223 (Inr (Some ?list)) =
      ([], Inr ?v)"
    using sel[THEN conjunct2, THEN conjunct2, THEN conjunct1, rule_format, OF f] by simp
  have e: "\<And>j. j < 2 \<Longrightarrow> snd (webviewsProbe (Some [''http://10.0.0.5:8100'']) ''HelloCordova.app'' 9223
      (?responses j)) = Inl (Error ''Unable to communicate with target'')"
    by (simp add: webviewsProbe_def)
  have h: "(2 :: nat) < 5 \<and>
      (\<forall>j < 2. \<exists>e. snd (webviewsProbe (Some [''http://10.0.0.5:8100'']) ''HelloCordova.app'' 9223
         (?responses j)) = Inl e) \<and>
      snd (webviewsProbe (Some [''http://10.0.0.5:8100'']) ''HelloCordova.app'' 9223 (?responses 2)) = Inr ?v"
    using e p by simp
  have dl: "(1000 :: nat) = (case None :: nat option of None \<Rightarrow> 1000 | Some d \<Rightarrow> if d = 0 then 1000 else d)"
    by simp
  from sel[THEN conjunct2, THEN conjunct2, THEN conjunct2, rule_format, OF dl,
      THEN conjunct2, THEN conjunct2, THEN conjunct1, rule_format, OF h]
  show ?thesis by (simp add: numeral_eq_Suc)
qed
section \<open>The readiness detector: several network interfaces\<close>

lemma devServerAddress_named: "sublist ''devServerAddress'' multipleInterfacesMessage"
  by code_simp

lemma networkAddresses_elems:
  assumes "networkAddresses out = Some addresses" and "a \<in> set addresses"
  shows "\<exists>line. a = Some line \<and> sublist line out"
proof -
  from assms obtain found m where f: "execAll False addressRegex out = Some found"
    "m \<in> set found" "a = group m 1"
    by (auto simp: networkAddresses_def)
  from execAll_elems_suffix[OF f(1,2)] obtain t where
    t: "suffix t out" "exec False addressRegex t = Some m" by blast
  from execFrom_Some[OF t(2)[unfolded exec_def]] obtain u st rest where
    u: "ms addressRegex False (u, []) = st # rest" "groups m = snd st"
       "matched m = take (length u - length (fst st)) u" by blast
  then have "st \<in> set (ms addressRegex False (u, []))" by simp
  from addressRegex_match[OF this] u f(3) have a: "a = Some (matched m)"
    by (simp add: group_def)
  have "sublist (matched m) t" using exec_matched_sublist[OF t(2)] .
  moreover have "sublist t out" using t(1) by (rule suffix_imp_sublist)
  ultimately have "sublist (matched m) out" by (rule sublist_order.order.trans)
  with a show ?thesis by blast
qed

lemma networkErrorMessage_lists:
  assumes "Some line \<in> set addresses"
  shows "sublist line (networkErrorMessage eol addresses)"
proof -
  from assms have ne: "addresses \<noteq> []" by auto
  from assms have "sublist line (join (eol @ '' '') (Some '' Available addresses:'' # addresses))"
    by (intro join_sublist) simp
  then have "sublist line (multipleInterfacesMessage @ join (eol @ '' '') (Some '' Available addresses:'' # addresses))"
    by (simp only: sublist_append) blast
  with ne show ?thesis by (simp add: networkErrorMessage_def)
qed

lemma networkErrorMessage_names_property:
  "sublist ''devServerAddress'' (networkErrorMessage eol addresses)"
proof -
  have "sublist ''devServerAddress'' (multipleInterfacesMessage @ rest)" for rest
    using devServerAddress_named by (simp only: sublist_append) blast
  then show ?thesis using devServerAddress_named by (simp add: networkErrorMessage_def)
qed

text \<open>
  Claim C7, as amended. When the accumulated stdout matches
  \<open>Multiple network interfaces detected\<close> while the serverReady future is pending and no
  server URL has been announced, the handler returns and has failed the serverReady future
  with an error whose message lists, verbatim, every match of the address pattern
  (digits, \<open>)\<close>, a space, the rest of the line) in the output accumulated so far, and
  names the \<open>devServerAddress\<close> property. Addresses that arrive in a later chunk are not
  listed, and a future that is already settled is left as it is.
\<close>

theorem multiple_interfaces_fail_serverReady:
  assumes "test False multipleRegex (serverOut s @ data)"
    and "serverDeferred s = Pending" and "\<not> serverReady s"
    and "exec True SERVER_URL_RE (serverOut s @ data) = None"
  shows "\<exists>s' addresses.
      serverOutputHandler cfg s data = Some (Inr s') \<and>
      networkAddresses (serverOut s @ data) = Some addresses \<and>
      serverDeferred s' = Rejected (Error (networkErrorMessage (EOL cfg) addresses)) \<and>
      (\<forall>a \<in> set addresses. \<exists>line. a = Some line \<and> sublist line (serverOut s @ data) \<and>
           sublist line (networkErrorMessage (EOL cfg) addresses)) \<and>
      sublist ''devServerAddress'' (networkErrorMessage (EOL cfg) addresses)"
proof -
  let ?out = "serverOut s @ data"
  let ?s1 = "s\<lparr>serverOut := ?out\<rparr>"
  from networkAddresses_total obtain addresses where a: "networkAddresses ?out = Some addresses"
    by blast
  let ?e = "Error (networkErrorMessage (EOL cfg) addresses)"
  let ?s4 = "?s1\<lparr>serverDeferred := reject ?e (serverDeferred ?s1), calls := calls ?s1 @ [ServerReject ?e]\<rparr>"
  have app: "appStep cfg None ?s1 = Inr ?s1" using assms(3) by (simp add: appStep_def)
  have mul: "multipleStep cfg ?s1 = Some ?s4" using assms(1) a by (simp add: multipleStep_def Let_def)
  have h: "serverOutputHandler cfg s data = Some (Inr (errorStep cfg ?s4))"
    using assms(3,4) app mul by (simp add: serverOutputHandler_def Let_def)
  have d: "serverDeferred (errorStep cfg ?s4) = Rejected ?e"
    using assms(2) by (simp add: errorStep_def reject_def split: option.splits)
  have l: "\<forall>a \<in> set addresses. \<exists>line. a = Some line \<and> sublist line ?out \<and>
           sublist line (networkErrorMessage (EOL cfg) addresses)"
  proof
    fix x assume x: "x \<in> set addresses"
    from networkAddresses_elems[OF a x] obtain line where line: "x = Some line" "sublist line ?out"
      by blast
    with x have "sublist line (networkErrorMessage (EOL cfg) addresses)"
      by (intro networkErrorMessage_lists) simp
    with line show "\<exists>line. x = Some line \<and> sublist line ?out \<and>
           sublist line (networkErrorMessage (EOL cfg) addresses)" by blast
  qed
  from h a d l networkErrorMessage_names_property show ?thesis by blast
qed

text \<open>
  Claim C7, as stated, fails. When the prompt arrives in one chunk and the two address lines
  in the next, the future is failed at the first chunk, with a message that lists no
  address; the \<open>reject\<close> of the second chunk finds the promise settled.
\<close>

theorem addresses_in_later_chunk_not_listed:
  "map_option serverDeferred
     (feed \<lparr>cliArgs = [''run'', ''android'', ''--device'', ''--verbose'', ''--livereload''],
            isIonic4 = False, EOL = [CHR 0x0A]\<rparr> newSession
        [Stdout (''Multiple network interfaces detected'' @ [CHR 0x0A]),
         Stdout (''1) 10.0.0.1 (eth0)'' @ [CHR 0x0A] @ ''2) 10.0.0.2 (wlan0)'' @ [CHR 0x0A])]) =
   Some (Rejected (Error multipleInterfacesMessage)) \<and>
   \<not> sublist ''1) 10.0.0.1 (eth0)'' multipleInterfacesMessage"
  by code_simp

lemma two_addresses:
  "networkAddresses (''Multiple network interfaces detected'' @ [CHR 0x0A] @
      ''1) 10.0.0.1 (eth0)'' @ [CHR 0x0A] @ ''2) 10.0.0.2 (wlan0)'' @ [CHR 0x0A]) =
   Some [Some ''1) 10.0.0.1 (eth0)'', Some ''2) 10.0.0.2 (wlan0)'']"
  by code_simp

text \<open>
  Claim C7, witness of the amended statement: the prompt and two address lines in one chunk.
\<close>

theorem multiple_interfaces_fail_serverReady_witness:
  "\<exists>s'. serverOutputHandler
          \<lparr>cliArgs = [''run'', ''android'', ''--device'', ''--verbose'', ''--livereload''],
            isIonic4 = False, EOL = [CHR 0x0A]\<rparr> newSession
          (''Multiple network interfaces detected'' @ [CHR 0x0A] @
           ''1) 10.0.0.1 (eth0)'' @ [CHR 0x0A] @ ''2) 10.0.0.2 (wlan0)'' @ [CHR 0x0A]) = Some (Inr s') \<and>
        serverDeferred s' = Rejected (Error (multipleInterfacesMessage @ '' Available addresses:'' @
           [CHR 0x0A] @ '' 1) 10.0.0.1 (eth0)'' @ [CHR 0x0A] @ '' 2) 10.0.0.2 (wlan0)''))"
proof -
  let ?cfg = "\<lparr>cliArgs = [''run'', ''android'', ''--device'', ''--verbose'', ''--livereload''],
            isIonic4 = False, EOL = [CHR 0x0A]\<rparr>"
  let ?data = "''Multiple network interfaces detected'' @ [CHR 0x0A] @
           ''1) 10.0.0.1 (eth0)'' @ [CHR 0x0A] @ ''2) 10.0.0.2 (wlan0)'' @ [CHR 0x0A]"
  have h1: "test False multipleRegex (serverOut newSession @ ?data)" by code_simp
  have h2: "serverDeferred newSession = Pending" by (simp add: newSession_def)
  have h3: "\<not> serverReady newSession" by (simp add: newSession_def)
  have h4: "exec True SERVER_URL_RE (serverOut newSession @ ?data) = None" by code_simp
  from multiple_interfaces_fail_serverReady[OF h1 h2 h3 h4, of ?cfg]
  obtain s' addresses where r: "serverOutputHandler ?cfg newSession ?data = Some (Inr s')"
    "networkAddresses (serverOut newSession @ ?data) = Some addresses"
    "serverDeferred s' = Rejected (Error (networkErrorMessage (EOL ?cfg) addresses))"
    by blast
  have "serverOut newSession @ ?data = ?data" by (simp add: newSession_def)
  with r(2) two_addresses have "addresses = [Some ''1) 10.0.0.1 (eth0)'', Some ''2) 10.0.0.2 (wlan0)'']"
    by simp
  with r(3) have "serverDeferred s' = Rejected (Error (multipleInterfacesMessage @ '' Available addresses:'' @
           [CHR 0x0A] @ '' 1) 10.0.0.1 (eth0)'' @ [CHR 0x0A] @ '' 2) 10.0.0.2 (wlan0)''))"
    by (simp add: networkErrorMessage_def)
  with r(1) show ?thesis by blast
qed
section \<open>ANSI escape stripping is not idempotent in general\<close>

lemma ansi_no_match:
  "c \<noteq> CHR 0x1B \<Longrightarrow> c \<noteq> CHR 0x9B \<Longrightarrow> ms ansiRegex False (c # cs, caps) = []"
  by (auto simp: ansiRegex_def clsMem_def inRanges_def chars_def)

lemma ansi_match_shorter:
  "st' \<in> set (ms ansiRegex False (s, caps)) \<Longrightarrow> length (fst st') < length s"
  unfolding ansiRegex_def by (drule ms_Seq_Cls_shorter) simp

lemma strip_no_introducer:
  "CHR 0x1B \<notin> set s \<Longrightarrow> CHR 0x9B \<notin> set s \<Longrightarrow> stripAnsi s = s"
proof (induction s)
  case Nil
  then show ?case by (simp add: stripAnsi_def)
next
  case (Cons c cs)
  then have "c \<noteq> CHR 0x1B" "c \<noteq> CHR 0x9B" by auto
  then have "ms ansiRegex False (c # cs, []) = []" by (rule ansi_no_match)
  with Cons show ?case by (simp add: stripAnsi_def removeMatches.simps(2))
qed

lemma strip_removes_introducers:
  "(\<And>c cs. suffix (c # cs) s \<Longrightarrow> c = CHR 0x1B \<or> c = CHR 0x9B \<Longrightarrow>
      ms ansiRegex False (c # cs, []) \<noteq> []) \<Longrightarrow>
   CHR 0x1B \<notin> set (removeMatches False ansiRegex s) \<and> CHR 0x9B \<notin> set (removeMatches False ansiRegex s)"
proof (induction s rule: length_induct)
  case (1 s)
  show ?case
  proof (cases s)
    case Nil
    then show ?thesis by simp
  next
    case (Cons c cs)
    show ?thesis
    proof (cases "ms ansiRegex False (c # cs, [])")
      case Nil
      then have nc: "c \<noteq> CHR 0x1B" "c \<noteq> CHR 0x9B"
        using "1.prems"[of c cs] Cons by auto
      have "CHR 0x1B \<notin> set (removeMatches False ansiRegex cs) \<and> CHR 0x9B \<notin> set (removeMatches False ansiRegex cs)"
      proof (rule "1.IH"[rule_format])
        show "length cs < length s" using Cons by simp
      next
        fix d ds assume "suffix (d # ds) cs" "d = CHR 0x1B \<or> d = CHR 0x9B"
        then show "ms ansiRegex False (d # ds, []) \<noteq> []"
          using "1.prems"[of d ds] Cons by (simp add: suffix_Cons)
      qed
      with Nil nc Cons show ?thesis by (simp add: removeMatches.simps(2))
    next
      case (Cons st sts)
      then have mem: "st \<in> set (ms ansiRegex False (c # cs, []))" by simp
      have lt: "length (fst st) < length (c # cs)" using ansi_match_shorter[OF mem] .
      have suf: "suffix (fst st) (c # cs)" using ms_suffix[OF mem] by simp
      have "CHR 0x1B \<notin> set (removeMatches False ansiRegex (fst st)) \<and> CHR 0x9B \<notin> set (removeMatches False ansiRegex (fst st))"
      proof (rule "1.IH"[rule_format])
        show "length (fst st) < length s" using lt \<open>s = c # cs\<close> by simp
      next
        fix d ds assume "suffix (d # ds) (fst st)" "d = CHR 0x1B \<or> d = CHR 0x9B"
        then show "ms ansiRegex False (d # ds, []) \<noteq> []"
          using "1.prems"[of d ds] suf \<open>s = c # cs\<close> by (meson suffix_order.trans)
      qed
      with Cons lt \<open>s = c # cs\<close> show ?thesis by (simp add: removeMatches.simps(2))
    qed
  qed
qed

text \<open>
  Claim C8, as amended. One pass of \<open>replace(ansiRegex, "")\<close> is idempotent on every string
  in which each escape introducer (\<open>\u001b\<close> or \<open>\u009b\<close>) starts a sequence that
  \<open>ansiRegex\<close> matches, as in colour-coded output: the pass then removes every introducer,
  and a string without introducers is left unchanged by a second pass.
\<close>

theorem stripAnsi_idempotent_wellformed:
  assumes "\<forall>t \<in> set (suffixes s). take 1 t = [CHR 0x1B] \<or> take 1 t = [CHR 0x9B] \<longrightarrow>
      ms ansiRegex False (t, []) \<noteq> []"
  shows "stripAnsi (stripAnsi s) = stripAnsi s"
proof -
  have "ms ansiRegex False (c # cs, []) \<noteq> []"
    if "suffix (c # cs) s" "c = CHR 0x1B \<or> c = CHR 0x9B" for c cs
  proof -
    from that(1) have "c # cs \<in> set (suffixes s)" by (simp only: in_set_suffixes)
    moreover from that(2) have "take 1 (c # cs) = [CHR 0x1B] \<or> take 1 (c # cs) = [CHR 0x9B]"
      by auto
    ultimately show ?thesis using assms by blast
  qed
  then have "CHR 0x1B \<notin> set (stripAnsi s) \<and> CHR 0x9B \<notin> set (stripAnsi s)"
    unfolding stripAnsi_def by (intro strip_removes_introducers) blast
  then show ?thesis by (simp add: strip_no_introducer)
qed

text \<open>
  Claim C8, as stated, fails. In the text \<open>ESC ESC [0m [0m\<close> the first introducer starts
  no sequence; the single pass removes the inner \<open>ESC [0m\<close>, and what is left,
  \<open>ESC [0m\<close>, is a sequence that a second pass removes.
\<close>

theorem stripAnsi_not_idempotent:
  "stripAnsi (stripAnsi ([CHR 0x1B, CHR 0x1B] @ ''[0m[0m'')) \<noteq> stripAnsi ([CHR 0x1B, CHR 0x1B] @ ''[0m[0m'')"
  by code_simp


text \<open>
  Claim C8, witness of the amended statement: a URL followed by the colour reset
  \<open>ESC [39m\<close>.
\<close>

theorem stripAnsi_idempotent_witness:
  "stripAnsi (stripAnsi (''http://x'' @ [CHR 0x1B] @ ''[39m'')) =
   stripAnsi (''http://x'' @ [CHR 0x1B] @ ''[39m'')"
proof -
  have h: "\<forall>t \<in> set (suffixes (''http://x'' @ [CHR 0x1B] @ ''[39m'')).
      take 1 t = [CHR 0x1B] \<or> take 1 t = [CHR 0x9B] \<longrightarrow> ms ansiRegex False (t, []) \<noteq> []"
    by code_simp
  show ?thesis by (rule stripAnsi_idempotent_wellformed[OF h])
qed
section \<open>runAdbCommand: restoring PATH\<close>

text \<open>
  When \<open>PATH\<close> is set, the call leaves the environment as it found it: while the command
  runs only \<open>PATH\<close> differs, by the platform-tools directory appended when \<open>ANDROID_HOME\<close>
  is set and not empty, and the \<open>finally\<close> handler stores the original value again,
  whether the command was fulfilled or rejected.
\<close>

lemma runAdbCommand_path_set:
  assumes "processEnv ''PATH'' = Some original"
  shows "snd (snd (runAdbCommand delimiter joinPath execCommand processEnv)) = processEnv"
    and "\<forall>name. name \<noteq> ''PATH'' \<longrightarrow>
           fst (snd (runAdbCommand delimiter joinPath execCommand processEnv)) name = processEnv name"
    and "processEnv ''ANDROID_HOME'' = Some home \<Longrightarrow> home \<noteq> [] \<Longrightarrow>
           fst (snd (runAdbCommand delimiter joinPath execCommand processEnv)) ''PATH'' =
           Some (original @ delimiter @ joinPath home ''platform-tools'')"
  using assms
  by (auto simp: runAdbCommand_def Let_def templ_def fun_upd_idem split: option.splits)

text \<open>
  Claim C9 fails on the code when \<open>PATH\<close> is not set. \<open>originalPath\<close> is then \<open>undefined\<close>;
  with \<open>ANDROID_HOME\<close> set, the command runs with the \<open>PATH\<close>
  \<open>undefined:/opt/android-sdk/platform-tools\<close>, and the \<open>finally\<close> handler assigns
  \<open>undefined\<close> to \<open>process.env["PATH"]\<close>, which stores the string \<open>undefined\<close>: after the
  call \<open>PATH\<close> is set, where it was not before.
\<close>

theorem path_unset_not_restored:
  "snd (snd (runAdbCommand '':'' (\<lambda>a b. a @ ''/'' @ b) (\<lambda>e. Inr [])
       ((\<lambda>name. None)(''ANDROID_HOME'' \<mapsto> ''/opt/android-sdk'')))) ''PATH'' = Some ''undefined'' \<and>
   ((\<lambda>name. None)(''ANDROID_HOME'' \<mapsto> ''/opt/android-sdk'')) ''PATH'' = (None :: string option) \<and>
   fst (snd (runAdbCommand '':'' (\<lambda>a b. a @ ''/'' @ b) (\<lambda>e. Inr [])
       ((\<lambda>name. None)(''ANDROID_HOME'' \<mapsto> ''/opt/android-sdk'')))) ''PATH'' =
     Some ''undefined:/opt/android-sdk/platform-tools''"
  by (simp add: runAdbCommand_def Let_def templ_def)
section \<open>attach: the promise that is returned\<close>

text \<open>
  The promise that \<open>attach\<close> returns is never fulfilled: its \<open>resolve\<close> is not called on
  any path.
\<close>

lemma attach_never_resolves: "returned (attach world attachArgs) \<noteq> Resolved v"
  by (simp add: attach_def Let_def reject_def split: prod.splits sum.splits)

text \<open>
  For a target that is neither \<open>device\<close> nor \<open>emulator\<close>, the chain inside \<open>attach\<close> does
  what is expected of it: it yields the record \<open>attachArgs\<close> after the four assignments,
  no endpoint resolver is called, and the proxy has been given \<open>attachArgs.port\<close>. The
  promise that was returned is pending all the same.
\<close>

lemma attach_chain_passes_args:
  assumes "createServer world = Inr ()" and "determineProjectTypes world = Inr ()"
    and "target attachArgs = Some t" and "t \<noteq> []"
    and "toLowerCase t \<noteq> ''device''" and "toLowerCase t \<noteq> ''emulator''"
  shows "chain (attach world attachArgs) = Inr (normalize world attachArgs)"
    and "resolversCalled (attach world attachArgs) = []"
    and "applicationTargetPort (attach world attachArgs) = port (normalize world attachArgs)"
    and "returned (attach world attachArgs) = Pending"
  using assms by (simp_all add: attach_def Let_def normalize_def)

text \<open>
  Claim C10 fails on the code. An attach request for the target \<open>chrome\<close>: the chain
  yields the record with the port set to \<open>9222\<close> and the timeout to \<open>attachTimeout\<close>, and
  the promise returned by \<open>attach\<close> stays pending, since \<open>() => resolve\<close> does not call
  \<open>resolve\<close>.
\<close>

theorem attach_promise_stays_pending:
  "returned (attach
      \<lparr>getCordovaProjectRoot = (\<lambda>dir. dir), createServer = Inr (), determineProjectTypes = Inr (),
       attachAndroid = (\<lambda>a. Inr a), attachIos = (\<lambda>a. Inr a)\<rparr>
      \<lparr>platform = Some ''android'', target = Some ''chrome'', port = None, cwd = Some ''/work/app'',
       attachTimeout = Some 10000, timeout = None, runArguments = None, ionicLiveReload = False\<rparr>) = Pending \<and>
   chain (attach
      \<lparr>getCordovaProjectRoot = (\<lambda>dir. dir), createServer = Inr (), determineProjectTypes = Inr (),
       attachAndroid = (\<lambda>a. Inr a), attachIos = (\<lambda>a. Inr a)\<rparr>
      \<lparr>platform = Some ''android'', target = Some ''chrome'', port = None, cwd = Some ''/work/app'',
       attachTimeout = Some 10000, timeout = None, runArguments = None, ionicLiveReload = False\<rparr>) =
   Inr \<lparr>platform = Some ''android'', target = Some ''chrome'', port = Some 9222, cwd = Some ''/work/app'',
       attachTimeout = Some 10000, timeout = Some 10000, runArguments = None, ionicLiveReload = False\<rparr>"
proof -
  have "toLowerCase ''chrome'' = ''chrome''" by code_simp
  then show ?thesis by (simp add: attach_def normalize_def Let_def)
qed

end
